theory Spec2Isabelle
  imports Main "HOL-Library.Code_Target_Nat"
begin

section \<open>Data model of \<^verbatim>\<open>customer_manager.py\<close>\<close>

text \<open>
  A Python string is a sequence of Unicode code points: a list of naturals below
  \<open>0x110000\<close>. A literal of the source is written with \<open>lit\<close>, a single character with \<open>ch\<close>.
\<close>

type_synonym pystr = "nat list"

abbreviation (input) ch :: "char \<Rightarrow> nat" where
  "ch c \<equiv> of_char c"

definition lit :: "string \<Rightarrow> pystr" where
  "lit s = map of_char s"

lemma lit_eq_iff [simp]: "lit a = lit b \<longleftrightarrow> a = b"
  unfolding lit_def by (rule inj_map_eq_map) (rule inj_of_char)

lemma length_lit [simp]: "length (lit s) = length s"
  by (simp add: lit_def)

lemma lit_simps [simp]: "lit [] = []" "lit (c # s) = ch c # lit s"
  by (simp_all add: lit_def)

text \<open>
  A customer is a Python \<^verbatim>\<open>dict\<close> with string keys. The persisted format holds a number under
  \<^verbatim>\<open>id\<close> and strings under the other keys, so a field value is an integer or a string.
  A dict keeps its keys in insertion order: it is an association list, read by its first
  binding of a key. The store is a \<^verbatim>\<open>List[dict]\<close>.
\<close>

datatype pyval = PInt int | PStr pystr

type_synonym customer = "(pystr \<times> pyval) list"

text \<open>
  The exceptions of the program and of the library calls it makes. \<open>NotModelled\<close> is no
  exception of Python: it marks an answer of the library that the model does not follow.
\<close>

datatype exn =
  TypeError | JSONDecodeError | UnicodeDecodeError | RecursionError | ValueError | NotModelled

text \<open>\<^verbatim>\<open>d.get(key)\<close>: \<open>None\<close> when the key is absent.\<close>

fun dict_get :: "customer \<Rightarrow> pystr \<Rightarrow> pyval option" where
  "dict_get [] key = None"
| "dict_get ((k, v) # d) key = (if k = key then Some v else dict_get d key)"

text \<open>\<^verbatim>\<open>d[key] = value\<close>: an existing key keeps its position, a new key goes last.\<close>

fun dict_set :: "customer \<Rightarrow> pystr \<Rightarrow> pyval \<Rightarrow> customer" where
  "dict_set [] key value = [(key, value)]"
| "dict_set ((k, v) # d) key value =
     (if k = key then (k, value) # d else (k, v) # dict_set d key value)"

subsection \<open>\<^verbatim>\<open>str\<close> of an integer\<close>

definition digit_char :: "nat \<Rightarrow> nat" where
  "digit_char d = ch CHR ''0'' + d"

function str_nat :: "nat \<Rightarrow> pystr" where
  "str_nat n = (if n < 10 then [digit_char n] else str_nat (n div 10) @ [digit_char (n mod 10)])"
  by pat_completeness auto
termination
  by (relation "measure (\<lambda>n. n)") auto

declare str_nat.simps [simp del]

definition str_int :: "int \<Rightarrow> pystr" where
  "str_int i = (if i < 0 then ch CHR ''-'' # str_nat (nat (- i)) else str_nat (nat i))"

text \<open>\<^verbatim>\<open>str(value)\<close> on a field value.\<close>

fun py_str :: "pyval \<Rightarrow> pystr" where
  "py_str (PInt i) = str_int i"
| "py_str (PStr s) = s"

subsection \<open>\<^verbatim>\<open>next_id\<close>\<close>

text \<open>
  \<^verbatim>\<open>a > b\<close> on field values: integers by value, strings by code points, and a
  \<^verbatim>\<open>TypeError\<close> between an integer and a string.
\<close>

fun str_gt :: "pystr \<Rightarrow> pystr \<Rightarrow> bool" where
  "str_gt [] t = False"
| "str_gt (a # s) [] = True"
| "str_gt (a # s) (b # t) =
     (if a > b then True
      else if a < b then False
      else str_gt s t)"

fun py_gt :: "pyval \<Rightarrow> pyval \<Rightarrow> exn + bool" where
  "py_gt (PInt a) (PInt b) = Inr (a > b)"
| "py_gt (PStr a) (PStr b) = Inr (str_gt a b)"
| "py_gt (PInt a) (PStr b) = Inl TypeError"
| "py_gt (PStr a) (PInt b) = Inl TypeError"

text \<open>
  The builtin \<^verbatim>\<open>max\<close> over an iterable whose first item has been taken: each further item
  replaces the current maximum when \<^verbatim>\<open>item > maximum\<close>.
\<close>

fun py_max :: "pyval \<Rightarrow> pyval list \<Rightarrow> exn + pyval" where
  "py_max m [] = Inr m"
| "py_max m (item # items) =
     (case py_gt item m of
        Inl e \<Rightarrow> Inl e
      | Inr b \<Rightarrow> py_max (if b then item else m) items)"

text \<open>\<^verbatim>\<open>value + 1\<close>.\<close>

fun py_add1 :: "pyval \<Rightarrow> exn + int" where
  "py_add1 (PInt a) = Inr (a + 1)"
| "py_add1 (PStr s) = Inl TypeError"

text \<open>\<^verbatim>\<open>c.get("id", 0)\<close>.\<close>

definition get_id0 :: "customer \<Rightarrow> pyval" where
  "get_id0 c = (case dict_get c (lit ''id'') of None \<Rightarrow> PInt 0 | Some v \<Rightarrow> v)"

definition next_id :: "customer list \<Rightarrow> exn + int" where
  "next_id customers =
     (case map get_id0 customers of
        [] \<Rightarrow> Inr 1
      | v # vs \<Rightarrow> (case py_max v vs of Inl e \<Rightarrow> Inl e | Inr m \<Rightarrow> py_add1 m))"

text \<open>The integer a record counts with in \<open>next_id\<close>: its id, or 0 when it has none.\<close>

definition id_or_0 :: "customer \<Rightarrow> int" where
  "id_or_0 c = (case dict_get c (lit ''id'') of Some (PInt i) \<Rightarrow> i | _ \<Rightarrow> 0)"

text \<open>Every id that is present is an integer, as the data model has it.\<close>

definition int_ids :: "customer list \<Rightarrow> bool" where
  "int_ids customers = list_all (\<lambda>c. case dict_get c (lit ''id'') of Some (PStr s) \<Rightarrow> False | _ \<Rightarrow> True) customers"

subsection \<open>\<^verbatim>\<open>render_table\<close>\<close>

definition headers :: "pystr list" where
  "headers = map lit [''ID'', ''Name'', ''Phone'', ''Email'', ''Notes'']"

definition keys :: "pystr list" where
  "keys = map lit [''id'', ''name'', ''phone'', ''email'', ''notes'']"

text \<open>\<^verbatim>\<open>[str(row.get(key, "")) for key in keys]\<close>.\<close>

definition str_row :: "customer \<Rightarrow> pystr list" where
  "str_row row =
     map (\<lambda>key. py_str (case dict_get row key of None \<Rightarrow> PStr [] | Some v \<Rightarrow> v)) keys"

text \<open>
  The inner loop \<^verbatim>\<open>for idx, cell in enumerate(row): widths[idx] = max(widths[idx], len(cell))\<close>.
  A row has as many cells as there are headers, so \<^verbatim>\<open>widths[idx]\<close> is always in range.
\<close>

fun widen :: "nat list \<Rightarrow> (nat \<times> pystr) list \<Rightarrow> nat list" where
  "widen widths [] = widths"
| "widen widths ((idx, cell) # rest) =
     widen (widths[idx := max (widths ! idx) (length cell)]) rest"

definition col_widths :: "pystr list list \<Rightarrow> nat list" where
  "col_widths str_rows =
     foldl (\<lambda>widths row. widen widths (enumerate 0 row)) (map length headers) str_rows"

text \<open>\<^verbatim>\<open>part.ljust(width)\<close> pads with spaces on the right and never truncates.\<close>

definition ljust :: "pystr \<Rightarrow> nat \<Rightarrow> pystr" where
  "ljust part width = part @ replicate (width - length part) (ch CHR '' '')"

text \<open>\<^verbatim>\<open>sep.join(parts)\<close>.\<close>

fun join :: "pystr \<Rightarrow> pystr list \<Rightarrow> pystr" where
  "join sep [] = []"
| "join sep [part] = part"
| "join sep (part # parts) = part @ sep @ join sep parts"

definition format_row :: "nat list \<Rightarrow> pystr list \<Rightarrow> pystr" where
  "format_row widths parts =
     join (lit '' | '') (map (\<lambda>(idx, part). ljust part (widths ! idx)) (enumerate 0 parts))"

definition render_table :: "customer list \<Rightarrow> pystr" where
  "render_table rows =
     (if rows = [] then lit ''(no customers yet)''
      else
        let str_rows = map str_row rows;
            widths = col_widths str_rows;
            horizontal = join (lit ''-+-'') (map (\<lambda>width. replicate width (ch CHR ''-'')) widths);
            lines = [format_row widths headers, horizontal] @ map (format_row widths) str_rows
        in join [0x0A] lines)"

subsection \<open>The JSON encoder: \<^verbatim>\<open>json.dump(customers, f, indent=2)\<close>\<close>

text \<open>
  The standard library writes a string between double quotes and, with its default
  \<^verbatim>\<open>ensure_ascii\<close>, escapes the quote, the backslash and every character outside the range
  from the space to the tilde: the short escapes for backspace, form feed, newline, carriage
  return and tab, \<^verbatim>\<open>\uXXXX\<close> with four lowercase hexadecimal digits for the other code points
  below \<open>0x10000\<close>, and a pair of such escapes, the high and the low surrogate, for a code
  point from \<open>0x10000\<close> on. The library forms the surrogates with shifts and masks of
  \<open>n = c - 0x10000\<close>; as the low ten bits of \<open>0xd800\<close> and \<open>0xdc00\<close> are zero, these are the sums
  below.
\<close>

definition hex_digit :: "nat \<Rightarrow> nat" where
  "hex_digit d = lit ''0123456789abcdef'' ! d"

definition hex4 :: "nat \<Rightarrow> pystr" where
  "hex4 n = [hex_digit (n div 4096 mod 16), hex_digit (n div 256 mod 16),
             hex_digit (n div 16 mod 16), hex_digit (n mod 16)]"

definition u_escape :: "nat \<Rightarrow> pystr" where
  "u_escape n = [0x5C, ch CHR ''u''] @ hex4 n"

definition escape_char :: "nat \<Rightarrow> pystr" where
  "escape_char c =
     (if c = 0x22 then [0x5C, 0x22]
      else if c = 0x5C then [0x5C, 0x5C]
      else if c = 0x0A then [0x5C, ch CHR ''n'']
      else if c = 0x0D then [0x5C, ch CHR ''r'']
      else if c = 0x09 then [0x5C, ch CHR ''t'']
      else if c = 0x08 then [0x5C, ch CHR ''b'']
      else if c = 0x0C then [0x5C, ch CHR ''f'']
      else if 0x20 \<le> c \<and> c \<le> 0x7E then [c]
      else if c < 0x10000 then u_escape c
      else u_escape (0xD800 + (c - 0x10000) div 1024 mod 1024)
           @ u_escape (0xDC00 + (c - 0x10000) mod 1024))"

definition encode_str :: "pystr \<Rightarrow> pystr" where
  "encode_str s = [0x22] @ concat (map escape_char s) @ [0x22]"

fun encode_value :: "pyval \<Rightarrow> pystr" where
  "encode_value (PInt i) = str_int i"
| "encode_value (PStr s) = encode_str s"

text \<open>
  With \<^verbatim>\<open>indent=2\<close> an empty container is written closed at once; otherwise every item goes on
  a line of its own, indented by two spaces for each level of nesting, the items separated by
  a comma before the line break, a key and its value by a colon and a space. The closing
  bracket stands on a line of its own, one level back.
\<close>

definition newline_indent :: "nat \<Rightarrow> pystr" where
  "newline_indent level = 0x0A # replicate (2 * level) (ch CHR '' '')"

definition encode_member :: "pystr \<times> pyval \<Rightarrow> pystr" where
  "encode_member kv = encode_str (fst kv) @ lit '': '' @ encode_value (snd kv)"

text \<open>A dict, as an item of the list: its members are at level 2.\<close>

definition encode_dict :: "customer \<Rightarrow> pystr" where
  "encode_dict d =
     (if d = [] then lit ''{}''
      else lit ''{'' @ newline_indent 2
           @ join (lit '','' @ newline_indent 2) (map encode_member d)
           @ newline_indent 1 @ lit ''}'')"

definition json_dump :: "customer list \<Rightarrow> pystr" where
  "json_dump customers =
     (if customers = [] then lit ''[]''
      else lit ''['' @ newline_indent 1
           @ join (lit '','' @ newline_indent 1) (map encode_dict customers)
           @ newline_indent 0 @ lit '']'')"

subsection \<open>The JSON decoder: \<^verbatim>\<open>json.load(f)\<close>\<close>

text \<open>
  What \<^verbatim>\<open>json.load\<close> returns: a list, or a value that is not a list. The items of the list
  are of any type: \<open>load_customers\<close> does not look at them.
\<close>

datatype 'a document = NotAList | AList "'a list"

text \<open>
  The decoder below follows \<^verbatim>\<open>json.decoder\<close> (\<^verbatim>\<open>JSONArray\<close>, \<^verbatim>\<open>JSONObject\<close>, \<^verbatim>\<open>scanstring\<close>, the
  number pattern) on the documents of the data model: a list of objects whose values are
  integers or strings. A position in the text is the text that remains to be read.
\<close>

definition is_ws :: "nat \<Rightarrow> bool" where
  "is_ws c = (c = ch CHR '' '' \<or> c = 0x09 \<or> c = 0x0A \<or> c = 0x0D)"

definition skip_ws :: "pystr \<Rightarrow> pystr" where
  "skip_ws s = dropWhile is_ws s"

definition is_digit :: "nat \<Rightarrow> bool" where
  "is_digit c = (ch CHR ''0'' \<le> c \<and> c \<le> ch CHR ''9'')"

definition digit_val :: "nat \<Rightarrow> nat" where
  "digit_val c = c - ch CHR ''0''"

definition hex_val :: "nat \<Rightarrow> nat option" where
  "hex_val c =
     (if is_digit c then Some (digit_val c)
      else if ch CHR ''a'' \<le> c \<and> c \<le> ch CHR ''f'' then Some (c - ch CHR ''a'' + 10)
      else if ch CHR ''A'' \<le> c \<and> c \<le> ch CHR ''F'' then Some (c - ch CHR ''A'' + 10)
      else None)"

text \<open>The four hexadecimal digits of a \<^verbatim>\<open>\uXXXX\<close> escape.\<close>

definition decode_uXXXX :: "nat \<Rightarrow> nat \<Rightarrow> nat \<Rightarrow> nat \<Rightarrow> nat option" where
  "decode_uXXXX a b c d =
     (case (hex_val a, hex_val b, hex_val c, hex_val d) of
        (Some x, Some y, Some z, Some w) \<Rightarrow> Some (((x * 16 + y) * 16 + z) * 16 + w)
      | _ \<Rightarrow> None)"

text \<open>The table \<^verbatim>\<open>BACKSLASH\<close> of the one-letter escapes.\<close>

definition backslash :: "nat \<Rightarrow> nat option" where
  "backslash e =
     (if e = 0x22 then Some 0x22
      else if e = 0x5C then Some 0x5C
      else if e = ch CHR ''/'' then Some (ch CHR ''/'')
      else if e = ch CHR ''b'' then Some 0x08
      else if e = ch CHR ''f'' then Some 0x0C
      else if e = ch CHR ''n'' then Some 0x0A
      else if e = ch CHR ''r'' then Some 0x0D
      else if e = ch CHR ''t'' then Some 0x09
      else None)"

definition prepend :: "nat \<Rightarrow> (pystr \<times> pystr) option \<Rightarrow> (pystr \<times> pystr) option" where
  "prepend c r = (case r of None \<Rightarrow> None | Some (s, rest) \<Rightarrow> Some (c # s, rest))"

definition high_surrogate :: "nat \<Rightarrow> bool" where
  "high_surrogate u = (0xD800 \<le> u \<and> u \<le> 0xDBFF)"

definition low_surrogate :: "nat \<Rightarrow> bool" where
  "low_surrogate u = (0xDC00 \<le> u \<and> u \<le> 0xDFFF)"

text \<open>\<^verbatim>\<open>_decode_uXXXX\<close> at a position: four hexadecimal digits, or an error.\<close>

definition scan_hex4 :: "pystr \<Rightarrow> (nat \<times> pystr) option" where
  "scan_hex4 s =
     (case s of
        h1 # h2 # h3 # h4 # rest \<Rightarrow>
          (case decode_uXXXX h1 h2 h3 h4 of None \<Rightarrow> None | Some uni \<Rightarrow> Some (uni, rest))
      | _ \<Rightarrow> None)"

text \<open>
  After a high surrogate: when the escape of a low surrogate follows, the two are the one code
  point of the pair, \<open>0x10000 + (((uni - 0xd800) << 10) | (uni2 - 0xdc00))\<close>, a sum again;
  followed by anything else the high surrogate stands for itself and the text is read on
  from where it ended.
\<close>

definition after_high :: "nat \<Rightarrow> pystr \<Rightarrow> (nat \<times> pystr) option" where
  "after_high uni s =
     (case s of
        b # u # s1 \<Rightarrow>
          if b = 0x5C \<and> u = ch CHR ''u'' then
            (case scan_hex4 s1 of
               None \<Rightarrow> None
             | Some (uni2, s2) \<Rightarrow>
                 if low_surrogate uni2
                 then Some (0x10000 + ((uni - 0xD800) * 1024 + (uni2 - 0xDC00)), s2)
                 else Some (uni, s))
          else Some (uni, s)
      | _ \<Rightarrow> Some (uni, s))"

text \<open>The code point of a \<^verbatim>\<open>\u\<close> escape, from the character after the \<^verbatim>\<open>u\<close>.\<close>

definition scan_u :: "pystr \<Rightarrow> (nat \<times> pystr) option" where
  "scan_u s =
     (case scan_hex4 s of
        None \<Rightarrow> None
      | Some (uni, rest) \<Rightarrow> if high_surrogate uni then after_high uni rest else Some (uni, rest))"

lemma scan_hex4_shorter: "scan_hex4 s = Some (u, rest) \<Longrightarrow> Suc (Suc (Suc (Suc (length rest)))) = length s"
  by (auto simp: scan_hex4_def split: list.splits option.splits)

lemma after_high_shorter: "after_high uni s = Some (c, rest) \<Longrightarrow> length rest \<le> length s"
  by (auto simp: after_high_def split: list.splits option.splits if_splits
      dest!: scan_hex4_shorter)

lemma scan_u_shorter: "scan_u s = Some (c, rest) \<Longrightarrow> length rest < length s"
  by (auto simp: scan_u_def split: option.splits if_splits
      dest!: scan_hex4_shorter after_high_shorter)

text \<open>
  \<^verbatim>\<open>scanstring\<close>, from the character after the opening quote: the string read and the text
  after the closing quote. A control character, an unknown escape, a \<^verbatim>\<open>\u\<close> without four
  hexadecimal digits and a missing closing quote are errors.
\<close>

function scanstring :: "pystr \<Rightarrow> (pystr \<times> pystr) option" where
  "scanstring [] = None"
| "scanstring (c # cs) =
     (if c = 0x22 then Some ([], cs)
      else if c = 0x5C then
        (case cs of
           [] \<Rightarrow> None
         | e # cs1 \<Rightarrow>
             if e = ch CHR ''u'' then
               (case scan_u cs1 of
                  None \<Rightarrow> None
                | Some (c', cs2) \<Rightarrow> prepend c' (scanstring cs2))
             else
               (case backslash e of
                  None \<Rightarrow> None
                | Some c' \<Rightarrow> prepend c' (scanstring cs1)))
      else if c < 0x20 then None
      else prepend c (scanstring cs))"
  by pat_completeness auto
termination
  by (relation "measure length") (auto dest: scan_u_shorter)

declare scanstring.simps(2) [simp del]

text \<open>
  The integer part of the number pattern: a single \<^verbatim>\<open>0\<close>, or a digit from 1 to 9 and the digits
  that follow it.
\<close>

definition scan_natural :: "pystr \<Rightarrow> (nat \<times> pystr) option" where
  "scan_natural s =
     (case s of
        [] \<Rightarrow> None
      | c # cs \<Rightarrow>
          if c = ch CHR ''0'' then Some (0, cs)
          else if is_digit c then
            Some (foldl (\<lambda>a d. 10 * a + digit_val d) 0 (c # takeWhile is_digit cs),
                  dropWhile is_digit cs)
          else None)"

text \<open>
  A number with an optional minus sign. When a fraction or an exponent follows, the number is a
  float, or the text is malformed: neither is a value of the model.
\<close>

definition float_follows :: "pystr \<Rightarrow> bool" where
  "float_follows s =
     (case s of [] \<Rightarrow> False | c # cs \<Rightarrow> c = ch CHR ''.'' \<or> c = ch CHR ''e'' \<or> c = ch CHR ''E'')"

definition scan_number :: "pystr \<Rightarrow> (int \<times> pystr) option" where
  "scan_number s =
     (case (case s of
              [] \<Rightarrow> None
            | c # cs \<Rightarrow>
                if c = ch CHR ''-'' then
                  (case scan_natural cs of None \<Rightarrow> None | Some (n, rest) \<Rightarrow> Some (- int n, rest))
                else
                  (case scan_natural s of None \<Rightarrow> None | Some (n, rest) \<Rightarrow> Some (int n, rest)))
      of None \<Rightarrow> None
       | Some (i, rest) \<Rightarrow> if float_follows rest then None else Some (i, rest))"

text \<open>\<^verbatim>\<open>scan_once\<close> for the value of a field: a string or an integer.\<close>

definition scan_value :: "pystr \<Rightarrow> (pyval \<times> pystr) option" where
  "scan_value s =
     (case s of
        [] \<Rightarrow> None
      | c # cs \<Rightarrow>
          if c = 0x22 then
            (case scanstring cs of None \<Rightarrow> None | Some (v, rest) \<Rightarrow> Some (PStr v, rest))
          else
            (case scan_number s of None \<Rightarrow> None | Some (i, rest) \<Rightarrow> Some (PInt i, rest)))"

text \<open>The next character that is not whitespace, and the text after it.\<close>

definition next_char :: "pystr \<Rightarrow> (nat \<times> pystr) option" where
  "next_char s = (case skip_ws s of [] \<Rightarrow> None | c # rest \<Rightarrow> Some (c, rest))"

text \<open>Every scanner consumes text: the loops of the decoder terminate.\<close>

lemma prepend_Some: "prepend c r = Some (s, rest) \<Longrightarrow> \<exists>s'. r = Some (s', rest)"
  by (auto simp: prepend_def split: option.splits)

lemma scanstring_shorter: "scanstring s = Some (v, rest) \<Longrightarrow> length rest < length s"
proof (induction s arbitrary: v rest rule: scanstring.induct)
  case 1
  then show ?case by simp
next
  case (2 c cs)
  show ?case
  proof (cases "c = 0x22")
    case True
    then show ?thesis using "2.prems" by (simp add: scanstring.simps)
  next
    case quote: False
    show ?thesis
    proof (cases "c = 0x5C")
      case False
      then obtain v' where "scanstring cs = Some (v', rest)"
        using "2.prems" quote
        by (auto simp: scanstring.simps split: if_splits dest!: prepend_Some)
      then have "length rest < length cs"
        using "2.IH"(3) quote False "2.prems"
        by (auto simp: scanstring.simps split: if_splits)
      then show ?thesis by simp
    next
      case True
      then obtain e cs1 where cs: "cs = e # cs1"
        using "2.prems" quote by (cases cs) (auto simp: scanstring.simps)
      show ?thesis
      proof (cases "e = ch CHR ''u''")
        case u: True
        then obtain c' cs2 v' where s: "scan_u cs1 = Some (c', cs2)" "scanstring cs2 = Some (v', rest)"
          using "2.prems" quote True cs
          by (auto simp: scanstring.simps split: option.splits dest!: prepend_Some)
        have "length rest < length cs2"
          using "2.IH"(1) [OF quote True cs u s(1) refl s(2)] .
        then show ?thesis using scan_u_shorter [OF s(1)] cs by simp
      next
        case nu: False
        then obtain c' v' where s: "backslash e = Some c'" "scanstring cs1 = Some (v', rest)"
          using "2.prems" quote True cs
          by (auto simp: scanstring.simps split: option.splits dest!: prepend_Some)
        have "length rest < length cs1"
          using "2.IH"(2) [OF quote True cs nu s(1) s(2)] .
        then show ?thesis using cs by simp
      qed
    qed
  qed
qed

lemma skip_ws_shorter: "length (skip_ws s) \<le> length s"
  by (simp add: skip_ws_def length_dropWhile_le)

lemma next_char_shorter: "next_char s = Some (c, rest) \<Longrightarrow> length rest < length s"
proof -
  assume "next_char s = Some (c, rest)"
  then have "skip_ws s = c # rest"
    by (simp add: next_char_def split: list.splits)
  then have "Suc (length rest) = length (skip_ws s)" by simp
  then show ?thesis using skip_ws_shorter [of s] by linarith
qed

lemma scan_natural_shorter: "scan_natural s = Some (n, rest) \<Longrightarrow> length rest < length s"
  by (auto simp: scan_natural_def less_Suc_eq_le length_dropWhile_le
      split: list.splits if_splits)

lemma scan_number_shorter: "scan_number s = Some (i, rest) \<Longrightarrow> length rest < length s"
  by (auto simp: scan_number_def split: list.splits if_splits option.splits
      dest!: scan_natural_shorter)

lemma scan_value_shorter: "scan_value s = Some (v, rest) \<Longrightarrow> length rest < length s"
  by (auto simp: scan_value_def split: list.splits if_splits option.splits
      dest!: scan_number_shorter scanstring_shorter)

text \<open>
  The loop of \<^verbatim>\<open>JSONObject\<close>, from the character after the opening quote of a key: the key, a
  colon, the value, then a closing brace, or a comma and the quote of the next key.
\<close>

function scan_members :: "pystr \<Rightarrow> ((pystr \<times> pyval) list \<times> pystr) option" where
  "scan_members s =
     (case scanstring s of
        None \<Rightarrow> None
      | Some (key, s1) \<Rightarrow>
          (case next_char s1 of
             None \<Rightarrow> None
           | Some (colon, s2) \<Rightarrow>
               if colon \<noteq> ch CHR '':'' then None
               else
                 (case scan_value (skip_ws s2) of
                    None \<Rightarrow> None
                  | Some (value, s3) \<Rightarrow>
                      (case next_char s3 of
                         None \<Rightarrow> None
                       | Some (c, s4) \<Rightarrow>
                           if c = ch CHR ''}'' then Some ([(key, value)], s4)
                           else if c \<noteq> ch CHR '','' then None
                           else
                             (case next_char s4 of
                                None \<Rightarrow> None
                              | Some (quote, s5) \<Rightarrow>
                                  if quote \<noteq> 0x22 then None
                                  else
                                    (case scan_members s5 of
                                       None \<Rightarrow> None
                                     | Some (pairs, s6) \<Rightarrow>
                                         Some ((key, value) # pairs, s6)))))))"
  by pat_completeness auto
termination
proof (relation "measure length", goal_cases)
  case 1
  show ?case by simp
next
  case (2 s x2 key s1 x2a colon s2 x2b "value" s3 x2c c s4 x2d quote s5)
  have "length s1 < length s" using 2 by (auto dest: scanstring_shorter)
  moreover have "length s2 < length s1" using 2 by (auto dest: next_char_shorter)
  moreover have "length s3 < length (skip_ws s2)" using 2 by (auto dest: scan_value_shorter)
  moreover have "length s4 < length s3" using 2 by (auto dest: next_char_shorter)
  moreover have "length s5 < length s4" using 2 by (auto dest: next_char_shorter)
  ultimately show ?case using skip_ws_shorter [of s2] by simp
qed

declare scan_members.simps [simp del]

text \<open>\<^verbatim>\<open>dict(pairs)\<close>: a key given twice keeps its first place and takes its last value.\<close>

definition dict_of :: "(pystr \<times> pyval) list \<Rightarrow> customer" where
  "dict_of pairs = foldl (\<lambda>d kv. dict_set d (fst kv) (snd kv)) [] pairs"

text \<open>\<^verbatim>\<open>JSONObject\<close>, from the character after the opening brace.\<close>

definition JSONObject :: "pystr \<Rightarrow> (customer \<times> pystr) option" where
  "JSONObject s =
     (case next_char s of
        None \<Rightarrow> None
      | Some (c, rest) \<Rightarrow>
          if c = ch CHR ''}'' then Some ([], rest)
          else if c \<noteq> 0x22 then None
          else
            (case scan_members rest of
               None \<Rightarrow> None
             | Some (pairs, rest') \<Rightarrow> Some (dict_of pairs, rest')))"

text \<open>\<^verbatim>\<open>scan_once\<close> for an item of the list: an object.\<close>

definition scan_record :: "pystr \<Rightarrow> (customer \<times> pystr) option" where
  "scan_record s =
     (case s of
        [] \<Rightarrow> None
      | c # rest \<Rightarrow> if c = ch CHR ''{'' then JSONObject rest else None)"

lemma scan_members_shorter: "scan_members s = Some (pairs, rest) \<Longrightarrow> length rest < length s"
proof (induction s arbitrary: pairs rest rule: scan_members.induct)
  case (1 s)
  from "1.prems" obtain key s1 where k: "scanstring s = Some (key, s1)"
    by (subst (asm) scan_members.simps) (auto split: option.splits)
  from "1.prems" k obtain s2 where c: "next_char s1 = Some ((ch CHR '':''), s2)"
    by (subst (asm) scan_members.simps) (auto split: option.splits if_splits)
  from "1.prems" k c obtain v s3 where v: "scan_value (skip_ws s2) = Some (v, s3)"
    by (subst (asm) scan_members.simps) (auto split: option.splits if_splits)
  from "1.prems" k c v obtain d s4 where d: "next_char s3 = Some (d, s4)"
    by (subst (asm) scan_members.simps) (auto split: option.splits if_splits)
  have l4: "length s4 < length s"
    using scanstring_shorter [OF k] next_char_shorter [OF c] scan_value_shorter [OF v]
      next_char_shorter [OF d] skip_ws_shorter [of s2]
    by linarith
  show ?case
  proof (cases "d = ch CHR ''}''")
    case True
    then have "rest = s4"
      using "1.prems" k c v d by (subst (asm) scan_members.simps) simp
    then show ?thesis using l4 by simp
  next
    case False
    from "1.prems" k c v d False obtain s5 where q: "d = ch CHR '',''" "next_char s4 = Some (0x22, s5)"
      by (subst (asm) scan_members.simps) (auto split: option.splits if_splits)
    from "1.prems" k c v d False q obtain ps where r: "scan_members s5 = Some (ps, rest)"
      by (subst (asm) scan_members.simps) (auto split: option.splits if_splits)
    have "length rest < length s5"
      by (rule "1.IH" [OF k refl c refl _ v refl d refl False _ q(2) refl _ r])
         (simp_all add: q(1))
    then show ?thesis using l4 next_char_shorter [OF q(2)] by linarith
  qed
qed

lemma scan_record_shorter: "scan_record s = Some (d, rest) \<Longrightarrow> length rest < length s"
  by (auto simp: scan_record_def JSONObject_def less_Suc_eq
      split: list.splits if_splits option.splits
      dest!: next_char_shorter scan_members_shorter)

text \<open>
  The loop of \<^verbatim>\<open>JSONArray\<close>, from the first character of an item: the item, then a closing
  bracket, or a comma and the next item.
\<close>

function scan_items :: "pystr \<Rightarrow> (customer list \<times> pystr) option" where
  "scan_items s =
     (case scan_record s of
        None \<Rightarrow> None
      | Some (item, s1) \<Rightarrow>
          (case next_char s1 of
             None \<Rightarrow> None
           | Some (c, s2) \<Rightarrow>
               if c = ch CHR '']'' then Some ([item], s2)
               else if c \<noteq> ch CHR '','' then None
               else
                 (case scan_items (skip_ws s2) of
                    None \<Rightarrow> None
                  | Some (items, s3) \<Rightarrow> Some (item # items, s3))))"
  by pat_completeness auto
termination
proof (relation "measure length", goal_cases)
  case 1
  show ?case by simp
next
  case (2 s x2 item s1 x2a c s2)
  have "length s1 < length s" using 2 by (auto dest: scan_record_shorter)
  moreover have "length s2 < length s1" using 2 by (auto dest: next_char_shorter)
  ultimately show ?case using skip_ws_shorter [of s2] by simp
qed

declare scan_items.simps [simp del]

text \<open>\<^verbatim>\<open>JSONArray\<close>, from the character after the opening bracket.\<close>

definition JSONArray :: "pystr \<Rightarrow> (customer list \<times> pystr) option" where
  "JSONArray s =
     (case next_char s of
        None \<Rightarrow> None
      | Some (c, rest) \<Rightarrow> if c = ch CHR '']'' then Some ([], rest) else scan_items (skip_ws s))"

text \<open>
  \<^verbatim>\<open>raw_decode\<close>: the document at the start of the text. A list is a list of records; an
  object, a string and an integer are documents that are no list.
\<close>

definition raw_decode :: "pystr \<Rightarrow> (customer document \<times> pystr) option" where
  "raw_decode s =
     (case s of
        [] \<Rightarrow> None
      | c # rest \<Rightarrow>
          if c = ch CHR ''['' then
            (case JSONArray rest of None \<Rightarrow> None | Some (items, rest') \<Rightarrow> Some (AList items, rest'))
          else if c = ch CHR ''{'' then
            (case JSONObject rest of None \<Rightarrow> None | Some (d, rest') \<Rightarrow> Some (NotAList, rest'))
          else
            (case scan_value s of None \<Rightarrow> None | Some (v, rest') \<Rightarrow> Some (NotAList, rest')))"

text \<open>The characters a JSON value can start with.\<close>

definition value_start :: "nat \<Rightarrow> bool" where
  "value_start c = (c = 0x22 \<or> c = ch CHR ''{'' \<or> c = ch CHR ''['' \<or> c = ch CHR ''-'' \<or> is_digit c
     \<or> c = ch CHR ''n'' \<or> c = ch CHR ''t'' \<or> c = ch CHR ''f'' \<or> c = ch CHR ''N'' \<or> c = ch CHR ''I'')"

text \<open>
  \<^verbatim>\<open>json.load\<close> on the text of the file: whitespace, the document, whitespace, and the end of
  the text. The answer is certain in three cases: a document of the data model, alone in the
  text, is returned; a document of the data model with something after it is a
  \<^verbatim>\<open>JSONDecodeError\<close> (extra data); a text that is blank or starts with a character no value
  starts with is a \<^verbatim>\<open>JSONDecodeError\<close> (expecting value). Any other text is malformed further
  on, or holds a value outside the data model (a float, \<^verbatim>\<open>null\<close>, a boolean, a container inside
  a record, a list item that is no object): the model does not tell which and answers
  \<open>NotModelled\<close>.
\<close>

definition json_load :: "pystr \<Rightarrow> exn + customer document" where
  "json_load text =
     (case raw_decode (skip_ws text) of
        Some (data, rest) \<Rightarrow> if skip_ws rest = [] then Inr data else Inl JSONDecodeError
      | None \<Rightarrow>
          (case skip_ws text of
             [] \<Rightarrow> Inl JSONDecodeError
           | c # rest \<Rightarrow> if value_start c then Inl NotModelled else Inl JSONDecodeError))"

subsection \<open>The backing file\<close>

text \<open>
  The file is opened with \<^verbatim>\<open>encoding="utf-8"\<close>: what the program reads from it and writes to
  it is text. A file holds a text, or bytes that are not the UTF-8 encoding of any text (kept
  as they are); what \<^verbatim>\<open>json.dump\<close> writes is ASCII and always encodes. The file system maps a
  path to the content of the file at that path, if there is one.
\<close>

datatype content = Text pystr | NotUTF8 "nat list"

type_synonym fs = "pystr \<Rightarrow> content option"

definition DATA_FILE :: pystr where
  "DATA_FILE = lit ''customers.json''"

text \<open>
  The two functions of the \<^verbatim>\<open>json\<close> module are parameters of the functions that call them, so
  that what is proved of these holds for whatever the library answers, an exception too;
  \<open>json_load\<close> and \<open>json_dump\<close> above are the instances. \<^verbatim>\<open>json.load(f)\<close> reads the file first:
  on bytes that are not UTF-8 this raises \<^verbatim>\<open>UnicodeDecodeError\<close>. The \<^verbatim>\<open>try\<close> catches
  \<^verbatim>\<open>JSONDecodeError\<close> and nothing else.
\<close>

definition load_customers :: "(pystr \<Rightarrow> exn + 'a document) \<Rightarrow> fs \<Rightarrow> pystr \<Rightarrow> exn + 'a list" where
  "load_customers load files path =
     (case files path of
        None \<Rightarrow> Inr []
      | Some (NotUTF8 bytes) \<Rightarrow> Inl UnicodeDecodeError
      | Some (Text text) \<Rightarrow>
          (case load text of
             Inl e \<Rightarrow> if e = JSONDecodeError then Inr [] else Inl e
           | Inr data \<Rightarrow> (case data of NotAList \<Rightarrow> Inr [] | AList customers \<Rightarrow> Inr customers)))"

definition save_customers :: "(customer list \<Rightarrow> pystr) \<Rightarrow> customer list \<Rightarrow> pystr \<Rightarrow> fs \<Rightarrow> fs" where
  "save_customers dump customers path files = files(path \<mapsto> Text (dump customers))"

subsection \<open>The commands\<close>

text \<open>
  A command starts from the file system and ends with the file system it leaves, the lines it
  printed (one entry for each call of \<^verbatim>\<open>print\<close>) and the way it ended: by returning, by
  \<^verbatim>\<open>sys.exit\<close> with a status, or by an exception nobody caught.
\<close>

datatype ending = Returned | SysExit int | Uncaught exn

record outcome =
  files :: fs
  stdout :: "pystr list"
  ending :: ending

text \<open>A command that an exception ends before it has printed or written anything.\<close>

definition raised :: "fs \<Rightarrow> exn \<Rightarrow> outcome" where
  "raised fs0 e = \<lparr>files = fs0, stdout = [], ending = Uncaught e\<rparr>"

text \<open>The arguments of \<^verbatim>\<open>add\<close>: the name, and the options, \<open>None\<close> when not given.\<close>

record add_args =
  new_name :: pystr
  new_phone :: "pystr option"
  new_email :: "pystr option"
  new_notes :: "pystr option"

text \<open>The arguments of \<^verbatim>\<open>edit\<close>: the id, and the options, \<open>None\<close> when not given.\<close>

record edit_args =
  edit_id :: int
  edit_name :: "pystr option"
  edit_phone :: "pystr option"
  edit_email :: "pystr option"
  edit_notes :: "pystr option"

definition list_customers :: "(pystr \<Rightarrow> exn + customer document) \<Rightarrow> fs \<Rightarrow> outcome" where
  "list_customers load fs0 =
     (case load_customers load fs0 DATA_FILE of
        Inl e \<Rightarrow> raised fs0 e
      | Inr customers \<Rightarrow> \<lparr>files = fs0, stdout = [render_table customers], ending = Returned\<rparr>)"

text \<open>\<^verbatim>\<open>value or ""\<close> on an optional string.\<close>

definition or_empty :: "pystr option \<Rightarrow> pystr" where
  "or_empty v = (case v of None \<Rightarrow> [] | Some s \<Rightarrow> if s = [] then [] else s)"

definition add_customer ::
  "(pystr \<Rightarrow> exn + customer document) \<Rightarrow> (customer list \<Rightarrow> pystr) \<Rightarrow> add_args \<Rightarrow> fs \<Rightarrow> outcome" where
  "add_customer load dump args fs0 =
     (case load_customers load fs0 DATA_FILE of
        Inl e \<Rightarrow> raised fs0 e
      | Inr customers \<Rightarrow>
          (case next_id customers of
             Inl e \<Rightarrow> raised fs0 e
           | Inr i \<Rightarrow>
               let customer =
                     [(lit ''id'', PInt i),
                      (lit ''name'', PStr (new_name args)),
                      (lit ''phone'', PStr (or_empty (new_phone args))),
                      (lit ''email'', PStr (or_empty (new_email args))),
                      (lit ''notes'', PStr (or_empty (new_notes args)))];
                   customers = customers @ [customer]
               in \<lparr>files = save_customers dump customers DATA_FILE fs0,
                   stdout = [lit ''Added customer:'', render_table [customer]],
                   ending = Returned\<rparr>))"

text \<open>\<^verbatim>\<open>customer.get("id") == customer_id\<close>, with an integer on the right.\<close>

definition id_eq :: "customer \<Rightarrow> int \<Rightarrow> bool" where
  "id_eq customer customer_id = (dict_get customer (lit ''id'') = Some (PInt customer_id))"

fun find_customer :: "customer list \<Rightarrow> int \<Rightarrow> customer option" where
  "find_customer [] customer_id = None"
| "find_customer (customer # customers) customer_id =
     (if id_eq customer customer_id then Some customer
      else find_customer customers customer_id)"

text \<open>The four assignments of \<^verbatim>\<open>edit_customer\<close>, each under its test \<^verbatim>\<open>is not None\<close>.\<close>

definition assign_if :: "pystr option \<Rightarrow> pystr \<Rightarrow> customer \<Rightarrow> customer" where
  "assign_if v key customer = (case v of None \<Rightarrow> customer | Some s \<Rightarrow> dict_set customer key (PStr s))"

definition apply_edits :: "edit_args \<Rightarrow> customer \<Rightarrow> customer" where
  "apply_edits args customer =
     assign_if (edit_notes args) (lit ''notes'')
       (assign_if (edit_email args) (lit ''email'')
         (assign_if (edit_phone args) (lit ''phone'')
           (assign_if (edit_name args) (lit ''name'') customer)))"

text \<open>
  \<open>find_customer\<close> returns the dict that is in the list, so the assignments change the list
  where that dict stands: at the first record with the id.
\<close>

fun update_found :: "int \<Rightarrow> (customer \<Rightarrow> customer) \<Rightarrow> customer list \<Rightarrow> customer list" where
  "update_found customer_id f [] = []"
| "update_found customer_id f (customer # customers) =
     (if id_eq customer customer_id then f customer # customers
      else customer # update_found customer_id f customers)"

definition not_found :: "int \<Rightarrow> pystr" where
  "not_found customer_id = lit ''Customer with ID '' @ str_int customer_id @ lit '' not found.''"

definition edit_customer ::
  "(pystr \<Rightarrow> exn + customer document) \<Rightarrow> (customer list \<Rightarrow> pystr) \<Rightarrow> edit_args \<Rightarrow> fs \<Rightarrow> outcome" where
  "edit_customer load dump args fs0 =
     (case load_customers load fs0 DATA_FILE of
        Inl e \<Rightarrow> raised fs0 e
      | Inr customers \<Rightarrow>
          (case find_customer customers (edit_id args) of
             None \<Rightarrow> \<lparr>files = fs0, stdout = [not_found (edit_id args)], ending = SysExit 1\<rparr>
           | Some customer \<Rightarrow>
               let customer' = apply_edits args customer;
                   customers' = update_found (edit_id args) (apply_edits args) customers
               in \<lparr>files = save_customers dump customers' DATA_FILE fs0,
                   stdout = [lit ''Updated customer:'', render_table [customer']],
                   ending = Returned\<rparr>))"

definition delete_customer ::
  "(pystr \<Rightarrow> exn + customer document) \<Rightarrow> (customer list \<Rightarrow> pystr) \<Rightarrow> int \<Rightarrow> fs \<Rightarrow> outcome" where
  "delete_customer load dump customer_id fs0 =
     (case load_customers load fs0 DATA_FILE of
        Inl e \<Rightarrow> raised fs0 e
      | Inr customers \<Rightarrow>
          (case find_customer customers customer_id of
             None \<Rightarrow> \<lparr>files = fs0, stdout = [not_found customer_id], ending = SysExit 1\<rparr>
           | Some customer \<Rightarrow>
               let customers = filter (\<lambda>c. \<not> id_eq c customer_id) customers
               in \<lparr>files = save_customers dump customers DATA_FILE fs0,
                   stdout = [lit ''Deleted customer '' @ str_int customer_id @ lit ''.'']
                            @ (if customers \<noteq> []
                               then [lit ''Remaining customers:'', render_table customers]
                               else []),
                   ending = Returned\<rparr>))"

subsection \<open>The table as the specification words it\<close>

text \<open>
  The text of a cell: the empty string for a missing field, the decimal form of an integer,
  a string as it is.
\<close>

definition cell_text :: "customer \<Rightarrow> pystr \<Rightarrow> pystr" where
  "cell_text row key =
     (case dict_get row key of None \<Rightarrow> [] | Some (PInt i) \<Rightarrow> str_int i | Some (PStr s) \<Rightarrow> s)"

text \<open>
  The width of column \<open>j\<close>: the maximum of the length of its header and of the length of every
  cell of the column.
\<close>

definition column_width :: "customer list \<Rightarrow> nat \<Rightarrow> nat" where
  "column_width rows j =
     Max (insert (length (headers ! j)) ((\<lambda>row. length (cell_text row (keys ! j))) ` set rows))"

text \<open>A row: every cell left-justified to the width of its column, the columns joined by \<open>'' | ''\<close>.\<close>

definition spec_row :: "customer list \<Rightarrow> pystr list \<Rightarrow> pystr" where
  "spec_row rows cells =
     join (lit '' | '') (map (\<lambda>j. ljust (cells ! j) (column_width rows j)) [0..<5])"

definition spec_separator :: "customer list \<Rightarrow> pystr" where
  "spec_separator rows =
     join (lit ''-+-'') (map (\<lambda>j. replicate (column_width rows j) (ch CHR ''-'')) [0..<5])"

definition spec_render :: "customer list \<Rightarrow> pystr" where
  "spec_render rows =
     join [0x0A]
       (spec_row rows headers # spec_separator rows #
        map (\<lambda>row. spec_row rows (map (cell_text row) keys)) rows)"

subsection \<open>The ids of a store\<close>

text \<open>The id values of the records that have one, in the order of the store.\<close>

definition id_values :: "customer list \<Rightarrow> pyval list" where
  "id_values customers =
     concat (map (\<lambda>c. case dict_get c (lit ''id'') of None \<Rightarrow> [] | Some v \<Rightarrow> [v]) customers)"

definition unique_ids :: "customer list \<Rightarrow> bool" where
  "unique_ids customers = distinct (id_values customers)"

definition positive_ids :: "customer list \<Rightarrow> bool" where
  "positive_ids customers =
     list_all (\<lambda>v. case v of PInt i \<Rightarrow> 0 < i | PStr s \<Rightarrow> False) (id_values customers)"

subsection \<open>Well-formed text\<close>

text \<open>
  A text is a sequence of Unicode scalar values: code points below \<open>0x110000\<close> that are no
  surrogates. The strings of a well-formed record are texts, and its keys are distinct, as the
  keys of any dict are.
\<close>

definition scalar :: "nat \<Rightarrow> bool" where
  "scalar c = (c < 0x110000 \<and> \<not> (0xD800 \<le> c \<and> c \<le> 0xDFFF))"

definition is_text :: "pystr \<Rightarrow> bool" where
  "is_text s = list_all scalar s"

definition text_value :: "pyval \<Rightarrow> bool" where
  "text_value v = (case v of PInt i \<Rightarrow> True | PStr s \<Rightarrow> is_text s)"

definition wf_record :: "customer \<Rightarrow> bool" where
  "wf_record d = (distinct (map fst d) \<and> list_all (\<lambda>kv. is_text (fst kv) \<and> text_value (snd kv)) d)"

subsection \<open>Notions for the proofs\<close>

text \<open>The width of column \<open>j\<close> as the loop computes it, from the width it starts with.\<close>

definition col_fold :: "nat \<Rightarrow> nat \<Rightarrow> customer list \<Rightarrow> nat" where
  "col_fold j init rows = fold max (map (\<lambda>row. length (cell_text row (keys ! j))) rows) init"

text \<open>What follows a value in the text the encoder writes: a comma or a newline.\<close>

definition closes :: "pystr \<Rightarrow> bool" where
  "closes rest = (\<exists>r. rest = ch CHR '','' # r \<or> rest = 0x0A # r)"

text \<open>A line break and the indentation after it.\<close>

definition indent :: "pystr \<Rightarrow> bool" where
  "indent w = (\<exists>k. w = 0x0A # replicate k (ch CHR '' ''))"

text \<open>A member after the opening quote of its key, and the members of an object likewise.\<close>

definition member_tail :: "pystr \<times> pyval \<Rightarrow> pystr" where
  "member_tail kv = concat (map escape_char (fst kv)) @ [0x22] @ lit '': '' @ encode_value (snd kv)"

definition members_tail :: "pystr \<Rightarrow> (pystr \<times> pyval) list \<Rightarrow> pystr" where
  "members_tail sep ms = tl (join sep (map encode_member ms))"

subsection \<open>Stores and arguments for the examples\<close>

definition ann :: customer where
  "ann = [(lit ''id'', PInt 1), (lit ''name'', PStr (lit ''Ann'')),
          (lit ''phone'', PStr (lit ''555-1000'')), (lit ''email'', PStr []),
          (lit ''notes'', PStr [])]"

definition bob :: customer where
  "bob = [(lit ''id'', PInt 2), (lit ''name'', PStr (lit ''Bob'')), (lit ''phone'', PStr []),
          (lit ''email'', PStr (lit ''bob@example.org'')),
          (lit ''notes'', PStr (lit ''prefers email''))]"

definition eve :: customer where
  "eve = [(lit ''id'', PInt 5), (lit ''name'', PStr (lit ''Eve''))]"

text \<open>A record whose notes hold the euro sign and a code point beyond the basic plane.\<close>

definition zoe :: customer where
  "zoe = [(lit ''id'', PInt 7), (lit ''name'', PStr (lit ''Zoe'')),
          (lit ''notes'', PStr [0x20AC, 0x1F600])]"

definition fs_text :: "pystr \<Rightarrow> fs" where
  "fs_text text = Map.empty(DATA_FILE \<mapsto> Text text)"

definition fs_ann :: fs where
  "fs_ann = fs_text (json_dump [ann])"

definition fs_three :: fs where
  "fs_three = fs_text (json_dump [ann, bob, eve])"

definition no_id :: customer where
  "no_id = [(lit ''name'', PStr (lit ''No Id''))]"

definition ann_twin :: customer where
  "ann_twin = [(lit ''id'', PInt 1), (lit ''name'', PStr (lit ''Ann again''))]"

definition fs_twins :: fs where
  "fs_twins = fs_text (json_dump [no_id, ann, bob, ann_twin])"

text \<open>A file of one byte \<open>0xff\<close>, which is the UTF-8 encoding of no text.\<close>

definition fs_bytes :: fs where
  "fs_bytes = Map.empty(DATA_FILE \<mapsto> NotUTF8 [0xFF])"

definition rename_2 :: edit_args where
  "rename_2 = \<lparr>edit_id = 2, edit_name = Some (lit ''New Name''), edit_phone = None,
               edit_email = None, edit_notes = None\<rparr>"

definition edit_nothing :: edit_args where
  "edit_nothing = \<lparr>edit_id = 1, edit_name = None, edit_phone = None, edit_email = None,
                   edit_notes = None\<rparr>"

definition clear_phone :: edit_args where
  "clear_phone = \<lparr>edit_id = 1, edit_name = Some (lit ''Ann B''), edit_phone = Some [],
                  edit_email = None, edit_notes = None\<rparr>"

definition add_zed :: add_args where
  "add_zed = \<lparr>new_name = lit ''Zed'', new_phone = None, new_email = None, new_notes = None\<rparr>"

section \<open>Properties\<close>

subsection \<open>\<open>next_id\<close>\<close>

lemma py_max_ints:
  "py_max (PInt m) (map PInt xs) = Inr (PInt (fold max xs m))"
  by (induction xs arbitrary: m) (auto simp: max_def)

lemma fold_max_Max: "fold max xs (m::int) = Max (set (m # xs))"
  by (metis Max.set_eq_fold)

lemma map_get_id0_int: "int_ids cs \<Longrightarrow> map get_id0 cs = map PInt (map id_or_0 cs)"
  by (induction cs) (auto simp: int_ids_def get_id0_def id_or_0_def split: option.splits pyval.splits)

lemma next_id_value:
  assumes "int_ids customers" and "customers \<noteq> []"
  shows "next_id customers = Inr (1 + Max (set (map id_or_0 customers)))"
proof -
  obtain c cs where Cons: "customers = c # cs"
    using assms(2) by (cases customers) auto
  have ids: "map get_id0 customers = map PInt (map id_or_0 customers)"
    using assms(1) by (rule map_get_id0_int)
  have "py_max (PInt (id_or_0 c)) (map PInt (map id_or_0 cs))
          = Inr (PInt (Max (set (map id_or_0 customers))))"
    unfolding py_max_ints fold_max_Max Cons by simp
  then show ?thesis
    unfolding next_id_def ids by (simp add: Cons)
qed

text \<open>
  C2. On a sequence of records whose ids are integers, \<open>next_id\<close> returns 1 when the
  sequence is empty and otherwise 1 + the maximum of the ids, a record without an id counting
  as 0; so the value returned is strictly greater than every id in the sequence.
\<close>

theorem next_id_max:
  assumes "int_ids customers"
  shows "next_id customers =
           Inr (if customers = [] then 1 else 1 + Max (set (map id_or_0 customers)))
         \<and> (\<forall>c \<in> set customers. \<forall>i r. dict_get c (lit ''id'') = Some (PInt i) \<longrightarrow>
               next_id customers = Inr r \<longrightarrow> i < r)"
proof (cases "customers = []")
  case True
  then show ?thesis by (simp add: next_id_def)
next
  case False
  have val: "next_id customers = Inr (1 + Max (set (map id_or_0 customers)))"
    using assms False by (rule next_id_value)
  have gt: "i < r" if "c' \<in> set customers" "dict_get c' (lit ''id'') = Some (PInt i)"
    "next_id customers = Inr r" for c' i r
  proof -
    have "id_or_0 c' = i" using that(2) by (simp add: id_or_0_def)
    then have "i \<in> set (map id_or_0 customers)" using that(1) by force
    then have "i \<le> Max (set (map id_or_0 customers))" by (intro Max_ge) auto
    moreover have "r = 1 + Max (set (map id_or_0 customers))" using val that(3) by simp
    ultimately show ?thesis by linarith
  qed
  show ?thesis using val gt False by auto
qed

theorem next_id_max_witness:
  "int_ids [ann, bob, eve] \<and> next_id [ann, bob, eve] = Inr 6"
proof -
  have h: "int_ids [ann, bob, eve]" by code_simp
  have m: "(if [ann, bob, eve] = [] then 1 else 1 + Max (set (map id_or_0 [ann, bob, eve]))) = (6::int)"
    by code_simp
  show ?thesis using h next_id_max [OF h] unfolding m by simp
qed

subsection \<open>\<open>render_table\<close>\<close>

lemma str_row_cells: "str_row row = map (cell_text row) keys"
  by (simp add: str_row_def cell_text_def keys_def split: option.splits pyval.splits)

lemma widen5:
  "widen [a, b, c, d, e] (enumerate 0 [p, q, r, s, t]) =
     [max a (length p), max b (length q), max c (length r), max d (length s), max e (length t)]"
  by (simp add: enumerate_eq_zip upt_rec numeral_eq_Suc)

lemma col_fold_Cons:
  "col_fold j init (row # rows) = col_fold j (max init (length (cell_text row (keys ! j)))) rows"
  by (simp add: col_fold_def max.commute)

lemma widths_loop:
  "foldl (\<lambda>widths row. widen widths (enumerate 0 row)) [a, b, c, d, e] (map str_row rows) =
     [col_fold 0 a rows, col_fold 1 b rows, col_fold 2 c rows, col_fold 3 d rows, col_fold 4 e rows]"
proof (induction rows arbitrary: a b c d e)
  case Nil
  show ?case by (simp add: col_fold_def)
next
  case (Cons row rows)
  have row: "str_row row = [cell_text row (lit ''id''), cell_text row (lit ''name''),
      cell_text row (lit ''phone''), cell_text row (lit ''email''), cell_text row (lit ''notes'')]"
    by (simp add: str_row_cells keys_def)
  have k: "keys ! 0 = lit ''id''" "keys ! 1 = lit ''name''" "keys ! 2 = lit ''phone''"
    "keys ! 3 = lit ''email''" "keys ! 4 = lit ''notes''"
    by (simp_all add: keys_def)
  show ?case
    unfolding list.map foldl_Cons row widen5 Cons.IH col_fold_Cons k ..
qed

lemma col_fold_Max:
  "col_fold j init rows = Max (insert init ((\<lambda>row. length (cell_text row (keys ! j))) ` set rows))"
  unfolding col_fold_def by (simp add: Max.set_eq_fold [symmetric])

lemma col_widths_spec:
  "col_widths (map str_row rows) = map (column_width rows) [0..<5]"
proof -
  have h: "map length headers = [2, 4, 5, 5, 5]" by (simp add: headers_def)
  have hs: "length (headers ! 0) = 2" "length (headers ! Suc 0) = 4" "length (headers ! 2) = 5"
    "length (headers ! 3) = 5" "length (headers ! 4) = 5"
    by (simp_all add: headers_def)
  have u: "[0..<5] = [0, 1, 2, 3, 4]" by (simp add: upt_rec numeral_eq_Suc)
  show ?thesis
    unfolding col_widths_def h widths_loop u
    by (simp add: col_fold_Max column_width_def hs)
qed

lemma format_row_spec:
  assumes "length parts = 5"
  shows "format_row (map (column_width rows) [0..<5]) parts = spec_row rows parts"
proof -
  obtain p q r s t where parts: "parts = [p, q, r, s, t]"
    using assms by (auto simp: length_Suc_conv numeral_eq_Suc)
  have u: "[0..<5] = [0, 1, 2, 3, 4]" by (simp add: upt_rec numeral_eq_Suc)
  show ?thesis
    unfolding format_row_def spec_row_def parts u
    by (simp add: enumerate_eq_zip upt_rec numeral_eq_Suc)
qed

text \<open>
  C5. For a sequence of records that is not empty, \<open>render_table\<close> returns the header row
  (ID, Name, Phone, Email, Notes), the separator line (for each column a run of \<open>-\<close> of the
  width of the column, the runs joined by \<open>-+-\<close>), and one row for each record in the order of
  the sequence, joined by single newlines. The width of a column is the maximum of the length
  of its header and of the length of every cell of the column; every cell, the headers too, is
  left-justified to that width and the columns are joined by \<open>'' | ''\<close>; a missing field is the
  empty string and an integer id its decimal form. That text is \<open>spec_render\<close>.
\<close>

theorem render_table_layout:
  assumes "rows \<noteq> []"
  shows "render_table rows = spec_render rows"
proof -
  have hd: "format_row (map (column_width rows) [0..<5]) headers = spec_row rows headers"
    by (rule format_row_spec) (simp add: headers_def)
  have rw: "map (format_row (map (column_width rows) [0..<5])) (map str_row rows)
            = map (\<lambda>row. spec_row rows (map (cell_text row) keys)) rows"
    by (simp add: str_row_cells format_row_spec keys_def)
  show ?thesis
    using assms unfolding render_table_def spec_render_def Let_def col_widths_spec hd rw
      spec_separator_def
    by (simp add: comp_def)
qed

theorem render_table_layout_witness:
  "[ann, eve] \<noteq> [] \<and> render_table [ann, eve] = spec_render [ann, eve]
   \<and> render_table [ann, eve] =
       lit ''ID | Name | Phone    | Email | Notes'' @ [0x0A] @
       lit ''---+------+----------+-------+------'' @ [0x0A] @
       lit ''1  | Ann  | 555-1000 |       |      '' @ [0x0A] @
       lit ''5  | Eve  |          |       |      ''"
proof -
  have h: "[ann, eve] \<noteq> []" by simp
  have v: "spec_render [ann, eve] =
       lit ''ID | Name | Phone    | Email | Notes'' @ [0x0A] @
       lit ''---+------+----------+-------+------'' @ [0x0A] @
       lit ''1  | Ann  | 555-1000 |       |      '' @ [0x0A] @
       lit ''5  | Eve  |          |       |      ''"
    by code_simp
  show ?thesis using h render_table_layout [OF h] v by simp
qed

subsection \<open>\<open>load_customers\<close>\<close>

text \<open>
  C6, as amended. \<open>load_customers\<close> returns the empty list when the file does not exist, when
  \<^verbatim>\<open>json.load\<close> raises \<^verbatim>\<open>JSONDecodeError\<close>, and when the document decoded is not a list;
  otherwise it returns the list decoded, whatever its items are. It raises
  \<^verbatim>\<open>UnicodeDecodeError\<close> when the file is not UTF-8, and any other exception of \<^verbatim>\<open>json.load\<close>
  (\<^verbatim>\<open>RecursionError\<close> on deep nesting, \<^verbatim>\<open>ValueError\<close> on an integer of too many digits) passes
  through it.
\<close>

theorem load_customers_outcomes:
  "(fs0 path = None \<longrightarrow> load_customers load fs0 path = Inr [])
   \<and> (\<forall>bytes. fs0 path = Some (NotUTF8 bytes) \<longrightarrow>
         load_customers load fs0 path = Inl UnicodeDecodeError)
   \<and> (\<forall>text. fs0 path = Some (Text text) \<and> load text = Inl JSONDecodeError \<longrightarrow>
         load_customers load fs0 path = Inr [])
   \<and> (\<forall>text e. fs0 path = Some (Text text) \<and> load text = Inl e \<and> e \<noteq> JSONDecodeError \<longrightarrow>
         load_customers load fs0 path = Inl e)
   \<and> (\<forall>text. fs0 path = Some (Text text) \<and> load text = Inr NotAList \<longrightarrow>
         load_customers load fs0 path = Inr [])
   \<and> (\<forall>text items. fs0 path = Some (Text text) \<and> load text = Inr (AList items) \<longrightarrow>
         load_customers load fs0 path = Inr items)"
  by (simp add: load_customers_def)

text \<open>
  The claim as stated fails: the file exists, its content is no JSON document, and
  \<open>load_customers\<close> raises instead of returning the empty list.
\<close>

theorem load_customers_raises:
  "fs_bytes DATA_FILE = Some (NotUTF8 [0xFF])
   \<and> load_customers json_load fs_bytes DATA_FILE = Inl UnicodeDecodeError"
  by (simp add: fs_bytes_def load_customers_def)

theorem load_customers_outcomes_witness:
  "load_customers json_load Map.empty DATA_FILE = Inr []
   \<and> load_customers json_load fs_bytes DATA_FILE = Inl UnicodeDecodeError
   \<and> load_customers json_load (fs_text (lit ''customers'')) DATA_FILE = Inr []
   \<and> RecursionError \<noteq> JSONDecodeError
   \<and> load_customers (\<lambda>text. Inl RecursionError :: exn + customer document)
         (fs_text (lit ''[[[['')) DATA_FILE = Inl RecursionError
   \<and> load_customers json_load (fs_text (lit ''5'')) DATA_FILE = Inr []
   \<and> load_customers json_load fs_ann DATA_FILE = Inr [ann]"
proof -
  have a: "(Map.empty :: fs) DATA_FILE = None" by simp
  have b: "fs_bytes DATA_FILE = Some (NotUTF8 [0xFF])" by (simp add: fs_bytes_def)
  have c: "fs_text (lit ''customers'') DATA_FILE = Some (Text (lit ''customers''))
      \<and> json_load (lit ''customers'') = Inl JSONDecodeError"
    by code_simp
  have d: "fs_text (lit ''[[[['') DATA_FILE = Some (Text (lit ''[[[[''))"
    by (simp add: fs_text_def)
  have e: "fs_text (lit ''5'') DATA_FILE = Some (Text (lit ''5''))
      \<and> json_load (lit ''5'') = Inr NotAList"
    by code_simp
  have f: "fs_ann DATA_FILE = Some (Text (json_dump [ann]))
      \<and> json_load (json_dump [ann]) = Inr (AList [ann])"
    by code_simp
  have g: "RecursionError \<noteq> JSONDecodeError" by simp
  have 1: "load_customers json_load Map.empty DATA_FILE = Inr []"
    using a load_customers_outcomes [of Map.empty DATA_FILE json_load] by blast
  have 2: "load_customers json_load fs_bytes DATA_FILE = Inl UnicodeDecodeError"
    using b load_customers_outcomes [of fs_bytes DATA_FILE json_load] by blast
  have 3: "load_customers json_load (fs_text (lit ''customers'')) DATA_FILE = Inr []"
    using c load_customers_outcomes [of "fs_text (lit ''customers'')" DATA_FILE json_load]
    by blast
  have 4: "load_customers (\<lambda>text. Inl RecursionError :: exn + customer document)
         (fs_text (lit ''[[[['')) DATA_FILE = Inl RecursionError"
    using d g load_customers_outcomes [of "fs_text (lit ''[[[['')" DATA_FILE
        "\<lambda>text. Inl RecursionError :: exn + customer document"]
    by blast
  have 5: "load_customers json_load (fs_text (lit ''5'')) DATA_FILE = Inr []"
    using e load_customers_outcomes [of "fs_text (lit ''5'')" DATA_FILE json_load] by blast
  have 6: "load_customers json_load fs_ann DATA_FILE = Inr [ann]"
    using f load_customers_outcomes [of fs_ann DATA_FILE json_load] by blast
  show ?thesis
    using 1 2 3 4 5 6 g by (intro conjI)
qed

subsection \<open>The round trip through the file\<close>

paragraph \<open>Integers\<close>

lemma str_nat_digits: "\<forall>c \<in> set (str_nat n). is_digit c"
proof (induction n rule: str_nat.induct)
  case (1 n)
  show ?case
  proof (cases "n < 10")
    case True
    then show ?thesis by (subst str_nat.simps) (simp add: digit_char_def is_digit_def digit_val_def)
  next
    case False
    have "n mod 10 < 10" by simp
    then show ?thesis using 1 False
      by (subst str_nat.simps) (simp add: digit_char_def is_digit_def digit_val_def)
  qed
qed

lemma str_nat_value: "foldl (\<lambda>a d. 10 * a + digit_val d) 0 (str_nat n) = n"
proof (induction n rule: str_nat.induct)
  case (1 n)
  show ?case
  proof (cases "n < 10")
    case True
    then show ?thesis by (subst str_nat.simps) (simp add: digit_char_def is_digit_def digit_val_def)
  next
    case False
    have "n mod 10 < 10" by simp
    then show ?thesis using 1 False
      by (subst str_nat.simps) (simp add: digit_char_def is_digit_def digit_val_def)
  qed
qed

lemma str_nat_hd:
  "\<exists>c cs. str_nat n = c # cs \<and> is_digit c \<and> (c = ch CHR ''0'' \<longrightarrow> n = 0 \<and> cs = [])"
proof (induction n rule: str_nat.induct)
  case (1 n)
  show ?case
  proof (cases "n < 10")
    case True
    then show ?thesis by (subst str_nat.simps) (simp add: digit_char_def is_digit_def digit_val_def)
  next
    case False
    then obtain c cs where h: "str_nat (n div 10) = c # cs" "is_digit c"
      "c = ch CHR ''0'' \<longrightarrow> n div 10 = 0 \<and> cs = []"
      using 1 by blast
    have "n div 10 \<noteq> 0" using False by simp
    then have "c \<noteq> ch CHR ''0''" using h(3) by blast
    then show ?thesis using h False
      by (subst str_nat.simps) simp
  qed
qed

lemma closes_no_digit: "closes rest \<Longrightarrow> takeWhile is_digit rest = [] \<and> dropWhile is_digit rest = rest"
  by (auto simp: closes_def is_digit_def)

lemma closes_no_float: "closes rest \<Longrightarrow> \<not> float_follows rest"
  by (auto simp: closes_def float_follows_def)

lemma scan_natural_str_nat:
  assumes "closes rest"
  shows "scan_natural (str_nat n @ rest) = Some (n, rest)"
proof -
  obtain c cs where h: "str_nat n = c # cs" "is_digit c" "c = ch CHR ''0'' \<longrightarrow> n = 0 \<and> cs = []"
    using str_nat_hd by blast
  show ?thesis
  proof (cases "c = ch CHR ''0''")
    case True
    then show ?thesis using h by (simp add: scan_natural_def)
  next
    case False
    have d: "\<forall>x \<in> set cs. is_digit x" using str_nat_digits [of n] h(1) by simp
    have t: "takeWhile is_digit (cs @ rest) = cs"
      using d closes_no_digit [OF assms] by (simp add: takeWhile_append2)
    have dr: "dropWhile is_digit (cs @ rest) = rest"
      using d closes_no_digit [OF assms] by (simp add: dropWhile_append2)
    have v: "foldl (\<lambda>a d. 10 * a + digit_val d) 0 (c # cs) = n"
      using str_nat_value [of n] h(1) by simp
    show ?thesis
      using False h(2) unfolding h(1) scan_natural_def
      by (simp only: append_Cons list.case if_False if_True t dr v)
  qed
qed

lemma scan_number_str_int:
  assumes "closes rest"
  shows "scan_number (str_int i @ rest) = Some (i, rest)"
proof (cases "i < 0")
  case True
  then show ?thesis
    using closes_no_float [OF assms]
    by (simp add: scan_number_def str_int_def scan_natural_str_nat [OF assms])
next
  case False
  obtain c cs where h: "str_nat (nat i) = c # cs" "is_digit c"
    using str_nat_hd by blast
  have nm: "c \<noteq> ch CHR ''-''" using h(2) by (auto simp: is_digit_def)
  have "scan_natural (c # cs @ rest) = Some (nat i, rest)"
    using scan_natural_str_nat [OF assms, of "nat i"] unfolding h(1) by simp
  then show ?thesis
    using False nm closes_no_float [OF assms]
    by (simp add: scan_number_def str_int_def h(1))
qed

lemma str_int_hd: "\<exists>c cs. str_int i = c # cs \<and> c \<noteq> 0x22 \<and> \<not> is_ws c"
proof -
  obtain c cs where h: "str_nat (nat i) = c # cs" "is_digit c"
    using str_nat_hd by blast
  obtain c' cs' where h': "str_nat (nat (- i)) = c' # cs'"
    using str_nat_hd by blast
  have "c \<noteq> 0x22 \<and> \<not> is_ws c" using h(2) by (auto simp: is_digit_def is_ws_def)
  then show ?thesis using h h' by (simp add: str_int_def is_ws_def)
qed

paragraph \<open>Strings\<close>

lemma hex_val_hex_digits: "\<forall>d \<in> set [0..<16]. hex_val (hex_digit d) = Some d"
  by code_simp

lemma hex_val_hex_digit: "d < 16 \<Longrightarrow> hex_val (hex_digit d) = Some d"
  using hex_val_hex_digits by simp

lemma hex4_value:
  assumes "(n::nat) < 65536"
  shows "((n div 4096 mod 16 * 16 + n div 256 mod 16) * 16 + n div 16 mod 16) * 16 + n mod 16 = n"
proof -
  define q1 where "q1 = n div 16"
  define q2 where "q2 = q1 div 16"
  define q3 where "q3 = q2 div 16"
  have b: "n div 256 = q2" unfolding q2_def q1_def by (simp add: div_mult2_eq)
  have c: "n div 4096 = q3" unfolding q3_def q2_def q1_def by (simp add: div_mult2_eq)
  have "q3 < 16" using assms unfolding c [symmetric] by simp
  then have a: "q3 mod 16 = q3" by simp
  have e3: "q3 * 16 + q2 mod 16 = q2" unfolding q3_def by simp
  have e2: "q2 * 16 + q1 mod 16 = q1" unfolding q2_def by simp
  have e1: "q1 * 16 + n mod 16 = n" unfolding q1_def by simp
  have "((q3 mod 16 * 16 + q2 mod 16) * 16 + q1 mod 16) * 16 + n mod 16 = n"
    by (simp only: a e3 e2 e1)
  then show ?thesis unfolding b c q1_def [symmetric] .
qed

lemma decode_hex4:
  assumes "n < 65536"
  shows "decode_uXXXX (hex_digit (n div 4096 mod 16)) (hex_digit (n div 256 mod 16))
           (hex_digit (n div 16 mod 16)) (hex_digit (n mod 16)) = Some n"
proof -
  have m: "n div 4096 mod 16 < 16" "n div 256 mod 16 < 16" "n div 16 mod 16 < 16" "n mod 16 < 16"
    by simp_all
  show ?thesis
    unfolding decode_uXXXX_def
    by (simp only: hex_val_hex_digit [OF m(1)] hex_val_hex_digit [OF m(2)]
        hex_val_hex_digit [OF m(3)] hex_val_hex_digit [OF m(4)] prod.case option.case
        hex4_value [OF assms])
qed

lemma scan_hex4_hex4:
  assumes "n < 65536"
  shows "scan_hex4 (hex4 n @ rest) = Some (n, rest)"
  unfolding scan_hex4_def hex4_def
  by (simp only: append_Cons append_Nil list.case decode_hex4 [OF assms] option.case)

lemma scan_u_bmp:
  assumes "n < 65536" and "\<not> high_surrogate n"
  shows "scan_u (hex4 n @ rest) = Some (n, rest)"
  using assms by (simp add: scan_u_def scan_hex4_hex4)

lemma scan_u_pair:
  assumes "0x10000 \<le> c" and "c < 0x110000"
  shows "scan_u (hex4 (0xD800 + (c - 0x10000) div 1024 mod 1024)
                 @ u_escape (0xDC00 + (c - 0x10000) mod 1024) @ rest) = Some (c, rest)"
proof -
  define v where "v = c - 0x10000"
  define hi where "hi = 0xD800 + v div 1024"
  define lo where "lo = 0xDC00 + v mod 1024"
  have v: "v < 0x100000" "c = 0x10000 + v" using assms by (simp_all add: v_def)
  have d: "v div 1024 < 1024" using v(1) by simp
  then have m: "v div 1024 mod 1024 = v div 1024" by simp
  have hi: "hi < 65536" "high_surrogate hi" "hi - 0xD800 = v div 1024"
    using d by (simp_all add: hi_def high_surrogate_def)
  have "v mod 1024 < 1024" by simp
  then have lo: "lo < 65536" "low_surrogate lo" "lo - 0xDC00 = v mod 1024"
    by (simp_all add: lo_def low_surrogate_def)
  have a: "after_high hi (u_escape lo @ rest) = Some (c, rest)"
    unfolding after_high_def u_escape_def
    by (simp add: scan_hex4_hex4 [OF lo(1)] lo(2) hi(3) lo(3) v(2))
  have "scan_u (hex4 hi @ u_escape lo @ rest) = Some (c, rest)"
    unfolding scan_u_def by (simp add: scan_hex4_hex4 [OF hi(1)] hi(2) a)
  then show ?thesis unfolding hi_def lo_def v_def m [unfolded v_def] .
qed

lemma scanstring_escape_char:
  assumes "scalar c"
  shows "scanstring (escape_char c @ t) = prepend c (scanstring t)"
proof -
  consider (short) "c = 0x22 \<or> c = 0x5C \<or> c = 0x0A \<or> c = 0x0D \<or> c = 0x09 \<or> c = 0x08 \<or> c = 0x0C"
    | (plain) "c \<noteq> 0x22" "c \<noteq> 0x5C" "0x20 \<le> c" "c \<le> 0x7E"
    | (bmp) "c \<noteq> 0x22" "c \<noteq> 0x5C" "c \<noteq> 0x0A" "c \<noteq> 0x0D" "c \<noteq> 0x09" "c \<noteq> 0x08" "c \<noteq> 0x0C"
        "\<not> (0x20 \<le> c \<and> c \<le> 0x7E)" "c < 0x10000"
    | (astral) "c \<noteq> 0x22" "c \<noteq> 0x5C" "c \<noteq> 0x0A" "c \<noteq> 0x0D" "c \<noteq> 0x09" "c \<noteq> 0x08" "c \<noteq> 0x0C"
        "\<not> (0x20 \<le> c \<and> c \<le> 0x7E)" "\<not> c < 0x10000"
    by blast
  then show ?thesis
  proof cases
    case short
    then show ?thesis
      by (auto simp: escape_char_def backslash_def scanstring.simps)
  next
    case plain
    have e: "escape_char c = [c]"
      using plain by (auto simp: escape_char_def)
    show ?thesis using plain unfolding e by (simp add: scanstring.simps)
  next
    case bmp
    have e: "escape_char c = u_escape c"
      using bmp by (auto simp: escape_char_def)
    have h: "\<not> high_surrogate c"
      using assms by (auto simp: scalar_def high_surrogate_def)
    have "c < 65536" using bmp by simp
    then have "scan_u (hex4 c @ t) = Some (c, t)" using h by (rule scan_u_bmp)
    then show ?thesis unfolding e u_escape_def by (simp add: scanstring.simps)
  next
    case astral
    have e: "escape_char c = u_escape (0xD800 + (c - 0x10000) div 1024 mod 1024)
        @ u_escape (0xDC00 + (c - 0x10000) mod 1024)"
      using astral by (auto simp: escape_char_def)
    have r: "0x10000 \<le> c" "c < 0x110000"
      using astral assms by (simp_all add: scalar_def)
    have "scan_u (hex4 (0xD800 + (c - 0x10000) div 1024 mod 1024)
                 @ u_escape (0xDC00 + (c - 0x10000) mod 1024) @ t) = Some (c, t)"
      using r by (rule scan_u_pair)
    then show ?thesis
      unfolding e by (simp add: u_escape_def [of "0xD800 + (c - 0x10000) div 1024 mod 1024"]
          scanstring.simps)
  qed
qed

lemma scanstring_escaped:
  assumes "is_text s"
  shows "scanstring (concat (map escape_char s) @ 0x22 # rest) = Some (s, rest)"
  using assms
proof (induction s)
  case Nil
  show ?case by (simp add: scanstring.simps)
next
  case (Cons c s)
  have c: "scalar c" and s: "is_text s" using Cons.prems by (simp_all add: is_text_def)
  have "scanstring (escape_char c @ (concat (map escape_char s) @ 0x22 # rest))
          = prepend c (scanstring (concat (map escape_char s) @ 0x22 # rest))"
    using c by (rule scanstring_escape_char)
  then show ?case using Cons.IH [OF s] by (simp add: prepend_def)
qed

lemma encode_str_unfold: "encode_str s @ rest = 0x22 # concat (map escape_char s) @ 0x22 # rest"
  by (simp add: encode_str_def)

paragraph \<open>Values\<close>

lemma scan_value_encode:
  assumes "closes rest" and "text_value v"
  shows "scan_value (encode_value v @ rest) = Some (v, rest)"
proof (cases v)
  case (PInt i)
  obtain c cs where h: "str_int i = c # cs" "c \<noteq> 0x22"
    using str_int_hd by blast
  have "scan_number (c # cs @ rest) = Some (i, rest)"
    using scan_number_str_int [OF assms(1), of i] unfolding h(1) by simp
  then show ?thesis using h PInt by (simp add: scan_value_def)
next
  case (PStr s)
  have "is_text s" using assms(2) PStr by (simp add: text_value_def)
  then show ?thesis unfolding PStr encode_value.simps encode_str_unfold
    by (simp add: scan_value_def scanstring_escaped)
qed

lemma encode_value_hd: "\<exists>c cs. encode_value v = c # cs \<and> \<not> is_ws c"
proof (cases v)
  case (PInt i)
  then show ?thesis using str_int_hd [of i] by auto
next
  case (PStr s)
  then show ?thesis by (simp add: encode_str_def is_ws_def)
qed

lemma skip_ws_encode_value: "skip_ws (encode_value v @ rest) = encode_value v @ rest"
proof -
  obtain c cs where "encode_value v = c # cs" "\<not> is_ws c"
    using encode_value_hd by blast
  then show ?thesis by (simp add: skip_ws_def)
qed

paragraph \<open>Whitespace\<close>

lemma skip_ws_simps:
  "skip_ws [] = []"
  "is_ws c \<Longrightarrow> skip_ws (c # s) = skip_ws s"
  "\<not> is_ws c \<Longrightarrow> skip_ws (c # s) = c # s"
  by (simp_all add: skip_ws_def)

lemma next_char_simps:
  "is_ws c \<Longrightarrow> next_char (c # s) = next_char s"
  "\<not> is_ws c \<Longrightarrow> next_char (c # s) = Some (c, s)"
  by (simp_all add: next_char_def skip_ws_def)

lemma indent_newline_indent: "indent (newline_indent n)"
  unfolding indent_def newline_indent_def by blast

lemma skip_ws_indent:
  assumes "indent w"
  shows "skip_ws (w @ s) = skip_ws s"
proof -
  obtain k where w: "w = 0x0A # replicate k 32"
    using assms by (auto simp: indent_def)
  have "dropWhile is_ws (replicate k 32 @ s) = dropWhile is_ws s"
    by (rule dropWhile_append2) (simp add: is_ws_def)
  then show ?thesis unfolding w by (simp add: skip_ws_def is_ws_def)
qed

lemma next_char_indent: "indent w \<Longrightarrow> next_char (w @ s) = next_char s"
  by (simp add: next_char_def skip_ws_indent)

lemma closes_indent: "indent w \<Longrightarrow> closes (w @ s)"
  by (auto simp: closes_def indent_def)

lemma closes_comma: "closes (44 # s)"
  by (simp add: closes_def)

lemma join_Cons: "join sep (x # xs) = (if xs = [] then x else x @ sep @ join sep xs)"
  by (cases xs) simp_all

paragraph \<open>Members of an object\<close>

lemma encode_member_tail: "encode_member kv = 0x22 # member_tail kv"
  by (simp add: encode_member_def member_tail_def encode_str_def)

lemma members_text:
  "ms \<noteq> [] \<Longrightarrow> join sep (map encode_member ms) = 0x22 # members_tail sep ms"
  by (cases ms) (simp_all add: members_tail_def join_Cons encode_member_tail)

lemma members_tail_Cons:
  "ms \<noteq> [] \<Longrightarrow> members_tail sep (m # ms) =
     member_tail m @ sep @ 0x22 # members_tail sep ms"
  using members_text [of ms sep]
  by (simp add: members_tail_def join_Cons encode_member_tail)

lemma members_tail_single: "members_tail sep [m] = member_tail m"
  by (simp add: members_tail_def encode_member_tail)

lemma scan_members_step:
  assumes "closes after" and "is_text k" and "text_value v"
  shows "scan_members (member_tail (k, v) @ after) =
     (case next_char after of
        None \<Rightarrow> None
      | Some (c, s4) \<Rightarrow>
          if c = ch CHR ''}'' then Some ([(k, v)], s4)
          else if c \<noteq> ch CHR '','' then None
          else
            (case next_char s4 of
               None \<Rightarrow> None
             | Some (quote, s5) \<Rightarrow>
                 if quote \<noteq> 0x22 then None
                 else
                   (case scan_members s5 of
                      None \<Rightarrow> None
                    | Some (pairs, s6) \<Rightarrow> Some ((k, v) # pairs, s6))))"
proof -
  have s: "scanstring (member_tail (k, v) @ after) = Some (k, 58 # 32 # encode_value v @ after)"
    using scanstring_escaped [OF assms(2), of "58 # 32 # encode_value v @ after"]
    by (simp add: member_tail_def)
  have n: "next_char (58 # 32 # encode_value v @ after) = Some (58, 32 # encode_value v @ after)"
    by (simp add: next_char_simps is_ws_def)
  have w: "skip_ws (32 # encode_value v @ after) = encode_value v @ after"
    by (simp add: skip_ws_simps is_ws_def skip_ws_encode_value)
  have v: "scan_value (encode_value v @ after) = Some (v, after)"
    using assms(1,3) by (rule scan_value_encode)
  show ?thesis
    by (subst scan_members.simps) (simp add: s n w v del: One_nat_def)
qed

lemma scan_members_encoded:
  assumes "indent a" and "indent b"
  shows "ms \<noteq> [] \<Longrightarrow> list_all (\<lambda>kv. is_text (fst kv) \<and> text_value (snd kv)) ms \<Longrightarrow>
    scan_members (members_tail (44 # a) ms @ b @ 125 # rest) = Some (ms, rest)"
proof (induction ms rule: list_nonempty_induct)
  case (single m)
  obtain k v where m: "m = (k, v)" by (cases m)
  let ?after = "b @ 125 # rest"
  have c: "closes ?after" using assms(2) by (rule closes_indent)
  have n: "next_char ?after = Some (125, rest)"
    by (simp add: next_char_indent [OF assms(2)] next_char_simps is_ws_def)
  have t: "is_text k" "text_value v" using single m by simp_all
  have "scan_members (member_tail (k, v) @ ?after) = Some ([(k, v)], rest)"
    unfolding scan_members_step [OF c t] n by simp
  then show ?case
    unfolding m members_tail_single .
next
  case (cons m ms)
  obtain k v where m: "m = (k, v)" by (cases m)
  let ?tail = "members_tail (44 # a) ms @ b @ 125 # rest"
  let ?after = "44 # a @ 0x22 # ?tail"
  have c: "closes ?after" by (rule closes_comma)
  have n: "next_char ?after = Some (44, a @ 0x22 # ?tail)"
    by (simp add: next_char_simps is_ws_def)
  have q: "next_char (a @ 0x22 # ?tail) = Some (0x22, ?tail)"
    by (simp add: next_char_indent [OF assms(1)] next_char_simps is_ws_def)
  have t: "is_text k" "text_value v" using cons.prems m by simp_all
  have "scan_members (member_tail (k, v) @ ?after) = Some ((k, v) # ms, rest)"
    unfolding scan_members_step [OF c t] n using cons.IH cons.prems by (simp add: q)
  then show ?case
    unfolding m members_tail_Cons [OF cons.hyps] by simp
qed

paragraph \<open>Objects\<close>

lemma dict_set_new: "k \<notin> fst ` set d \<Longrightarrow> dict_set d k v = d @ [(k, v)]"
  by (induction d) auto

lemma dict_of_distinct_acc:
  "distinct (map fst (acc @ ms)) \<Longrightarrow>
     foldl (\<lambda>d kv. dict_set d (fst kv) (snd kv)) acc ms = acc @ ms"
proof (induction ms arbitrary: acc)
  case Nil
  show ?case by simp
next
  case (Cons m ms)
  have "fst m \<notin> fst ` set acc" using Cons.prems by auto
  then have s: "dict_set acc (fst m) (snd m) = acc @ [m]" by (simp add: dict_set_new)
  have "distinct (map fst ((acc @ [m]) @ ms))" using Cons.prems by simp
  then have "foldl (\<lambda>d kv. dict_set d (fst kv) (snd kv)) (acc @ [m]) ms = (acc @ [m]) @ ms"
    by (rule Cons.IH)
  then show ?case by (simp add: s)
qed

lemma dict_of_distinct: "distinct (map fst d) \<Longrightarrow> dict_of d = d"
  using dict_of_distinct_acc [of "[]" d] by (simp add: dict_of_def)

lemma encode_dict_text:
  "d \<noteq> [] \<Longrightarrow> encode_dict d @ rest =
     123 # newline_indent 2 @ 0x22 #
       members_tail (44 # newline_indent 2) d @ newline_indent 1 @ 125 # rest"
  unfolding encode_dict_def
  by (simp add: members_text [of d "44 # newline_indent 2"] del: One_nat_def)

lemma scan_record_encoded:
  assumes "wf_record d"
  shows "scan_record (encode_dict d @ rest) = Some (d, rest)"
proof (cases "d = []")
  case True
  then show ?thesis
    by (simp add: encode_dict_def scan_record_def JSONObject_def next_char_simps is_ws_def)
next
  case False
  let ?tail = "members_tail (44 # newline_indent 2) d @ newline_indent 1 @ 125 # rest"
  have n: "next_char (newline_indent 2 @ 0x22 # ?tail) = Some (0x22, ?tail)"
    unfolding next_char_indent [OF indent_newline_indent]
    by (simp add: next_char_simps is_ws_def del: One_nat_def)
  have m: "scan_members ?tail = Some (d, rest)"
    using indent_newline_indent indent_newline_indent False assms
    unfolding wf_record_def by (blast intro: scan_members_encoded)
  have q: "(0x22 :: nat) \<noteq> 125" by simp
  have dk: "distinct (map fst d)" using assms by (simp add: wf_record_def)
  have j: "JSONObject (newline_indent 2 @ 0x22 # ?tail) = Some (d, rest)"
    unfolding JSONObject_def
    by (simp add: n m q dict_of_distinct [OF dk] del: One_nat_def)
  show ?thesis
    unfolding encode_dict_text [OF False] scan_record_def
    by (simp add: j del: One_nat_def)
qed

lemma encode_dict_hd: "\<exists>t. encode_dict d = 123 # t"
  by (simp add: encode_dict_def)

lemma items_text:
  assumes "cs \<noteq> []"
  shows "\<exists>t. join sep (map encode_dict cs) = 123 # t"
proof -
  obtain d ds where c: "cs = d # ds" using assms by (cases cs) auto
  obtain t where "encode_dict d = 123 # t" using encode_dict_hd by blast
  then show ?thesis unfolding c by (simp add: join_Cons)
qed

paragraph \<open>The list\<close>

lemma scan_items_encoded:
  assumes "indent a" and "indent b"
  shows "cs \<noteq> [] \<Longrightarrow> \<forall>d \<in> set cs. wf_record d \<Longrightarrow>
     scan_items (join (44 # a) (map encode_dict cs) @ b @ 93 # rest) = Some (cs, rest)"
proof (induction cs rule: list_nonempty_induct)
  case (single d)
  let ?after = "b @ 93 # rest"
  have r: "scan_record (encode_dict d @ ?after) = Some (d, ?after)"
    using single by (simp add: scan_record_encoded)
  have n: "next_char ?after = Some (93, rest)"
    by (simp add: next_char_indent [OF assms(2)] next_char_simps is_ws_def)
  have "scan_items (encode_dict d @ ?after) = Some ([d], rest)"
    by (subst scan_items.simps) (simp add: r n del: One_nat_def)
  then show ?case by simp
next
  case (cons d cs)
  let ?items = "join (44 # a) (map encode_dict cs) @ b @ 93 # rest"
  obtain t where t: "join (44 # a) (map encode_dict cs) = 123 # t"
    using items_text [OF cons.hyps] by blast
  have r: "scan_record (encode_dict d @ 44 # a @ ?items) = Some (d, 44 # a @ ?items)"
    using cons.prems by (simp add: scan_record_encoded)
  have n: "next_char (44 # a @ ?items) = Some (44, a @ ?items)"
    by (simp add: next_char_simps is_ws_def)
  have "skip_ws ?items = ?items"
    unfolding t by (simp add: skip_ws_simps is_ws_def)
  then have w: "skip_ws (a @ ?items) = ?items"
    by (simp add: skip_ws_indent [OF assms(1)] del: One_nat_def)
  have i: "scan_items ?items = Some (cs, rest)"
    using cons.IH cons.prems by simp
  have c: "(44::nat) \<noteq> 93" by simp
  have "scan_items (encode_dict d @ 44 # a @ ?items) = Some (d # cs, rest)"
    by (subst scan_items.simps)
       (simp add: r n w i c del: One_nat_def)
  then show ?case using cons.hyps by (simp add: join_Cons)
qed

lemma json_dump_text:
  "cs \<noteq> [] \<Longrightarrow> json_dump cs =
     91 # newline_indent 1 @
       join (44 # newline_indent 1) (map encode_dict cs) @ newline_indent 0 @ 93 # []"
  unfolding json_dump_def by (simp del: One_nat_def)

lemma json_load_dump:
  assumes "\<forall>d \<in> set cs. wf_record d"
  shows "json_load (json_dump cs) = Inr (AList cs)"
proof (cases "cs = []")
  case True
  then show ?thesis
    by (simp add: json_load_def json_dump_def raw_decode_def JSONArray_def skip_ws_simps
        next_char_simps is_ws_def)
next
  case False
  let ?items = "join (44 # newline_indent 1) (map encode_dict cs) @ newline_indent 0 @ 93 # []"
  obtain t where t: "join (44 # newline_indent 1) (map encode_dict cs) = 123 # t"
    using items_text [OF False] by blast
  have si: "skip_ws ?items = ?items"
    unfolding t by (simp add: skip_ws_simps is_ws_def)
  have "next_char ?items = Some (123, t @ newline_indent 0 @ 93 # [])"
    unfolding t by (simp add: next_char_simps is_ws_def)
  then have n: "next_char (newline_indent 1 @ ?items) = Some (123, t @ newline_indent 0 @ 93 # [])"
    by (simp add: next_char_indent [OF indent_newline_indent] del: One_nat_def)
  have w: "skip_ws (newline_indent 1 @ ?items) = ?items"
    using si by (simp add: skip_ws_indent [OF indent_newline_indent] del: One_nat_def)
  have i: "scan_items ?items = Some (cs, [])"
    using indent_newline_indent indent_newline_indent False assms by (rule scan_items_encoded)
  have b: "(123::nat) \<noteq> 93" by simp
  have a: "JSONArray (newline_indent 1 @ ?items) = Some (cs, [])"
    unfolding JSONArray_def by (simp add: n w i b del: One_nat_def)
  have r: "raw_decode (91 # newline_indent 1 @ ?items) = Some (AList cs, [])"
    unfolding raw_decode_def by (simp add: a del: One_nat_def)
  have s: "skip_ws (91 # newline_indent 1 @ ?items) = 91 # newline_indent 1 @ ?items"
    by (simp add: skip_ws_simps is_ws_def del: One_nat_def)
  show ?thesis
    unfolding json_load_def json_dump_text [OF False]
    by (simp add: s r skip_ws_simps del: One_nat_def)
qed

text \<open>
  C7. For every sequence of well-formed records (dicts with distinct keys, whose keys and
  string values are texts), loading the file that \<open>save_customers\<close> wrote returns the sequence
  that was saved: the same records in the same order, each with the same fields in the same
  order.
\<close>

theorem load_save_roundtrip:
  assumes "\<forall>d \<in> set customers. wf_record d"
  shows "load_customers json_load (save_customers json_dump customers path fs0) path = Inr customers"
  using json_load_dump [OF assms] by (simp add: load_customers_def save_customers_def)

theorem load_save_roundtrip_witness:
  "wf_record ann \<and> wf_record bob \<and> wf_record zoe
   \<and> load_customers json_load (save_customers json_dump [ann, bob, zoe] DATA_FILE Map.empty) DATA_FILE
       = Inr [ann, bob, zoe]
   \<and> save_customers json_dump [zoe] DATA_FILE Map.empty DATA_FILE =
       Some (Text (lit ''['' @ [0x0A] @
             lit ''  {'' @ [0x0A] @
             lit ''    \"id\": 7,'' @ [0x0A] @
             lit ''    \"name\": \"Zoe\",'' @ [0x0A] @
             lit ''    \"notes\": \"'' @ [0x5C] @ lit ''u20ac'' @ [0x5C] @ lit ''ud83d''
               @ [0x5C] @ lit ''ude00\"'' @ [0x0A] @
             lit ''  }'' @ [0x0A] @
             lit '']''))"
proof -
  have d: "wf_record ann \<and> wf_record bob \<and> wf_record zoe"
    by code_simp
  then have h: "\<forall>d \<in> set [ann, bob, zoe]. wf_record d" by simp
  have t: "save_customers json_dump [zoe] DATA_FILE Map.empty DATA_FILE =
       Some (Text (lit ''['' @ [0x0A] @
             lit ''  {'' @ [0x0A] @
             lit ''    \"id\": 7,'' @ [0x0A] @
             lit ''    \"name\": \"Zoe\",'' @ [0x0A] @
             lit ''    \"notes\": \"'' @ [0x5C] @ lit ''u20ac'' @ [0x5C] @ lit ''ud83d''
               @ [0x5C] @ lit ''ude00\"'' @ [0x0A] @
             lit ''  }'' @ [0x0A] @
             lit '']''))"
    by code_simp
  show ?thesis
    using d t load_save_roundtrip [OF h, of DATA_FILE Map.empty] by blast
qed

text \<open>
  Why the strings of a record are texts: a string that holds the two surrogates of a pair as
  two code points is written as the same two escapes as the one code point of the pair, and is
  read back as that one code point.
\<close>

lemma surrogate_pair_merges:
  "json_load (json_dump [[(lit ''n'', PStr [0xD83D, 0xDE00])]])
     = Inr (AList [[(lit ''n'', PStr [0x1F600])]])"
  by code_simp

subsection \<open>The commands \<^verbatim>\<open>edit\<close> and \<^verbatim>\<open>delete\<close>\<close>

text \<open>
  C4. When no record of the store has the id, \<open>edit_customer\<close> and \<open>delete_customer\<close> print
  one message that names the id, end with \<^verbatim>\<open>sys.exit(1)\<close> and leave the file system as it was:
  nothing is written.
\<close>

theorem not_found_no_write:
  assumes "load_customers load fs0 DATA_FILE = Inr customers"
    and "find_customer customers customer_id = None"
    and "edit_id args = customer_id"
  shows "edit_customer load dump args fs0 =
           \<lparr>files = fs0,
            stdout = [lit ''Customer with ID '' @ str_int customer_id @ lit '' not found.''],
            ending = SysExit 1\<rparr>
         \<and> delete_customer load dump customer_id fs0 =
           \<lparr>files = fs0,
            stdout = [lit ''Customer with ID '' @ str_int customer_id @ lit '' not found.''],
            ending = SysExit 1\<rparr>"
  using assms by (simp add: edit_customer_def delete_customer_def not_found_def)

theorem not_found_no_write_witness:
  "load_customers json_load fs_ann DATA_FILE = Inr [ann]
   \<and> find_customer [ann] 2 = None
   \<and> edit_id rename_2 = 2
   \<and> edit_customer json_load json_dump rename_2 fs_ann =
       \<lparr>files = fs_ann, stdout = [lit ''Customer with ID 2 not found.''], ending = SysExit 1\<rparr>
   \<and> delete_customer json_load json_dump 2 fs_ann =
       \<lparr>files = fs_ann, stdout = [lit ''Customer with ID 2 not found.''], ending = SysExit 1\<rparr>"
proof -
  have l: "load_customers json_load fs_ann DATA_FILE = Inr [ann]" by code_simp
  have h: "find_customer [ann] 2 = None" by code_simp
  have i: "edit_id rename_2 = 2" by (simp add: rename_2_def)
  have s: "lit ''Customer with ID '' @ str_int 2 @ lit '' not found.''
             = lit ''Customer with ID 2 not found.''"
    by code_simp
  show ?thesis
    using l h i not_found_no_write [OF l h i, of json_dump] unfolding s by (intro conjI) simp_all
qed

text \<open>
  C1, as amended. After the delete of an id that the store has, \<open>delete_customer\<close> prints the
  confirmation that names the id; when records remain it then prints the line
  \<open>Remaining customers:\<close> and the table of the remaining records, and when none remains it
  prints nothing more. The table of an empty sequence is the placeholder text.
\<close>

theorem delete_customer_output:
  assumes "load_customers load fs0 DATA_FILE = Inr customers"
    and "find_customer customers customer_id = Some customer"
  shows "stdout (delete_customer load dump customer_id fs0) =
           (let remaining = filter (\<lambda>c. \<not> id_eq c customer_id) customers
            in if remaining = [] then [lit ''Deleted customer '' @ str_int customer_id @ lit ''.'']
               else [lit ''Deleted customer '' @ str_int customer_id @ lit ''.'',
                     lit ''Remaining customers:'', render_table remaining])
         \<and> render_table [] = lit ''(no customers yet)''"
  using assms by (simp add: delete_customer_def Let_def render_table_def)

text \<open>
  The claim as stated fails: after the delete of the only record, the command prints the
  confirmation and no table, although the table of the empty store is the placeholder.
\<close>

theorem delete_last_prints_no_table:
  "load_customers json_load fs_ann DATA_FILE = Inr [ann]
   \<and> find_customer [ann] 1 = Some ann
   \<and> stdout (delete_customer json_load json_dump 1 fs_ann) = [lit ''Deleted customer 1.'']
   \<and> files (delete_customer json_load json_dump 1 fs_ann) DATA_FILE = Some (Text (lit ''[]''))
   \<and> render_table [] \<notin> set (stdout (delete_customer json_load json_dump 1 fs_ann))"
  by code_simp

theorem delete_customer_output_witness:
  "load_customers json_load fs_three DATA_FILE = Inr [ann, bob, eve]
   \<and> find_customer [ann, bob, eve] 2 = Some bob
   \<and> stdout (delete_customer json_load json_dump 2 fs_three) =
       [lit ''Deleted customer 2.'', lit ''Remaining customers:'', render_table [ann, eve]]
   \<and> load_customers json_load fs_ann DATA_FILE = Inr [ann]
   \<and> find_customer [ann] 1 = Some ann
   \<and> stdout (delete_customer json_load json_dump 1 fs_ann) = [lit ''Deleted customer 1.'']"
proof -
  have l: "load_customers json_load fs_three DATA_FILE = Inr [ann, bob, eve]" by code_simp
  have h: "find_customer [ann, bob, eve] 2 = Some bob" by code_simp
  have r: "filter (\<lambda>c. \<not> id_eq c 2) [ann, bob, eve] = [ann, eve]" by code_simp
  have s: "lit ''Deleted customer '' @ str_int 2 @ lit ''.'' = lit ''Deleted customer 2.''"
    by code_simp
  have l1: "load_customers json_load fs_ann DATA_FILE = Inr [ann]" by code_simp
  have h1: "find_customer [ann] 1 = Some ann" by code_simp
  have r1: "filter (\<lambda>c. \<not> id_eq c 1) [ann] = []" by code_simp
  have s1: "lit ''Deleted customer '' @ str_int 1 @ lit ''.'' = lit ''Deleted customer 1.''"
    by code_simp
  have a: "stdout (delete_customer json_load json_dump 2 fs_three) =
       [lit ''Deleted customer 2.'', lit ''Remaining customers:'', render_table [ann, eve]]"
    using delete_customer_output [OF l h, of json_dump] unfolding Let_def r s by simp
  have b: "stdout (delete_customer json_load json_dump 1 fs_ann) = [lit ''Deleted customer 1.'']"
    using delete_customer_output [OF l1 h1, of json_dump] unfolding Let_def r1 s1 by simp
  show ?thesis using l h a l1 h1 b by (intro conjI)
qed

lemma dict_get_set: "dict_get (dict_set d k v) k' = (if k' = k then Some v else dict_get d k')"
  by (induction d) auto

lemma dict_get_assign_if:
  "dict_get (assign_if v key c) k =
     (if k = key then (case v of None \<Rightarrow> dict_get c k | Some s \<Rightarrow> Some (PStr s)) else dict_get c k)"
  by (simp add: assign_if_def dict_get_set split: option.splits)

text \<open>
  C3. The edit overwrites each of name, phone, email and notes with the value given for it,
  the empty string too, and leaves a field with no value given as it was; it changes no other
  key; with no value given at all the record is unchanged.
\<close>

theorem apply_edits_fields:
  "dict_get (apply_edits args c) (lit ''name'') =
      (case edit_name args of None \<Rightarrow> dict_get c (lit ''name'') | Some s \<Rightarrow> Some (PStr s))
   \<and> dict_get (apply_edits args c) (lit ''phone'') =
      (case edit_phone args of None \<Rightarrow> dict_get c (lit ''phone'') | Some s \<Rightarrow> Some (PStr s))
   \<and> dict_get (apply_edits args c) (lit ''email'') =
      (case edit_email args of None \<Rightarrow> dict_get c (lit ''email'') | Some s \<Rightarrow> Some (PStr s))
   \<and> dict_get (apply_edits args c) (lit ''notes'') =
      (case edit_notes args of None \<Rightarrow> dict_get c (lit ''notes'') | Some s \<Rightarrow> Some (PStr s))
   \<and> (\<forall>key. key \<notin> {lit ''name'', lit ''phone'', lit ''email'', lit ''notes''} \<longrightarrow>
         dict_get (apply_edits args c) key = dict_get c key)
   \<and> (edit_name args = None \<and> edit_phone args = None \<and> edit_email args = None
        \<and> edit_notes args = None \<longrightarrow> apply_edits args c = c)"
proof -
  have "apply_edits args c = c"
    if "edit_name args = None" "edit_phone args = None" "edit_email args = None"
      "edit_notes args = None"
    using that by (simp add: apply_edits_def assign_if_def)
  then show ?thesis
    by (auto simp: apply_edits_def dict_get_assign_if simp del: lit_simps split: option.splits)
qed

theorem apply_edits_fields_witness:
  "dict_get (apply_edits clear_phone ann) (lit ''name'') = Some (PStr (lit ''Ann B''))
   \<and> dict_get (apply_edits clear_phone ann) (lit ''phone'') = Some (PStr [])
   \<and> dict_get (apply_edits clear_phone ann) (lit ''email'') = dict_get ann (lit ''email'')
   \<and> dict_get (apply_edits clear_phone ann) (lit ''notes'') = dict_get ann (lit ''notes'')
   \<and> lit ''id'' \<notin> {lit ''name'', lit ''phone'', lit ''email'', lit ''notes''}
   \<and> dict_get (apply_edits clear_phone ann) (lit ''id'') = dict_get ann (lit ''id'')
   \<and> apply_edits edit_nothing ann = ann"
proof -
  have k: "lit ''id'' \<notin> {lit ''name'', lit ''phone'', lit ''email'', lit ''notes''}"
    by (simp del: lit_simps)
  have n: "edit_name edit_nothing = None \<and> edit_phone edit_nothing = None
      \<and> edit_email edit_nothing = None \<and> edit_notes edit_nothing = None"
    by (simp add: edit_nothing_def)
  have a: "edit_name clear_phone = Some (lit ''Ann B'')" "edit_phone clear_phone = Some []"
    "edit_email clear_phone = None" "edit_notes clear_phone = None"
    by (simp_all add: clear_phone_def del: lit_simps)
  have 1: "apply_edits edit_nothing ann = ann"
    using n apply_edits_fields [of edit_nothing ann] by blast
  have 2: "dict_get (apply_edits clear_phone ann) (lit ''id'') = dict_get ann (lit ''id'')"
    using k apply_edits_fields [of clear_phone ann] by blast
  have 3: "dict_get (apply_edits clear_phone ann) (lit ''name'') = Some (PStr (lit ''Ann B''))
   \<and> dict_get (apply_edits clear_phone ann) (lit ''phone'') = Some (PStr [])
   \<and> dict_get (apply_edits clear_phone ann) (lit ''email'') = dict_get ann (lit ''email'')
   \<and> dict_get (apply_edits clear_phone ann) (lit ''notes'') = dict_get ann (lit ''notes'')"
    using apply_edits_fields [of clear_phone ann] unfolding a by (simp del: lit_simps)
  show ?thesis using 1 2 3 k by (intro conjI) blast+
qed

lemma find_filter_None: "find_customer (filter (\<lambda>c. \<not> id_eq c i) cs) i = None"
  by (induction cs) auto

text \<open>
  C9. In the sequence that a delete of an id leaves, \<open>find_customer\<close> with that id finds
  nothing: the list without the records of the id has none, and \<open>delete_customer\<close> either
  writes that list or, when the id was not in the store, writes nothing.
\<close>

theorem delete_then_find:
  "find_customer (filter (\<lambda>c. \<not> id_eq c customer_id) customers) customer_id = None
   \<and> (load_customers load fs0 DATA_FILE = Inr customers \<longrightarrow>
       (let out = delete_customer load dump customer_id fs0
        in (files out = fs0 \<and> find_customer customers customer_id = None)
           \<or> files out
                = fs0(DATA_FILE \<mapsto> Text (dump (filter (\<lambda>c. \<not> id_eq c customer_id) customers)))))"
  by (simp add: find_filter_None delete_customer_def Let_def save_customers_def
      split: option.splits)

theorem delete_then_find_witness:
  "find_customer (filter (\<lambda>c. \<not> id_eq c 1) [no_id, ann, bob, ann_twin]) 1 = None
   \<and> load_customers json_load fs_twins DATA_FILE = Inr [no_id, ann, bob, ann_twin]
   \<and> files (delete_customer json_load json_dump 1 fs_twins)
       = fs_twins(DATA_FILE \<mapsto> Text (json_dump [no_id, bob]))"
proof -
  have l: "load_customers json_load fs_twins DATA_FILE = Inr [no_id, ann, bob, ann_twin]"
    by code_simp
  have f: "find_customer [no_id, ann, bob, ann_twin] 1 = Some ann" by code_simp
  have r: "filter (\<lambda>c. \<not> id_eq c 1) [no_id, ann, bob, ann_twin] = [no_id, bob]" by code_simp
  show ?thesis
    using l delete_then_find [of 1 "[no_id, ann, bob, ann_twin]" json_load fs_twins json_dump]
    unfolding Let_def r f by (simp del: find_customer.simps)
qed

lemma find_customer_split:
  "find_customer cs i = Some c \<Longrightarrow>
     \<exists>pre post. cs = pre @ c # post \<and> id_eq c i \<and> (\<forall>x \<in> set pre. \<not> id_eq x i)
       \<and> (\<forall>f. update_found i f cs = pre @ f c # post)"
proof (induction cs)
  case Nil
  then show ?case by simp
next
  case (Cons a cs)
  show ?case
  proof (cases "id_eq a i")
    case True
    then have "a = c" using Cons.prems by simp
    then have "a # cs = [] @ c # cs \<and> id_eq c i \<and> (\<forall>x \<in> set []. \<not> id_eq x i)
        \<and> (\<forall>f. update_found i f (a # cs) = [] @ f c # cs)"
      using True by simp
    then show ?thesis by blast
  next
    case False
    then have "find_customer cs i = Some c" using Cons.prems by simp
    then obtain pre post where p: "cs = pre @ c # post" "id_eq c i" "\<forall>x \<in> set pre. \<not> id_eq x i"
      "\<forall>f. update_found i f cs = pre @ f c # post"
      using Cons.IH by blast
    have "a # cs = (a # pre) @ c # post \<and> id_eq c i \<and> (\<forall>x \<in> set (a # pre). \<not> id_eq x i)
        \<and> (\<forall>f. update_found i f (a # cs) = (a # pre) @ f c # post)"
      using p False by simp
    then show ?thesis by blast
  qed
qed

lemma keep_filter:
  "filter (\<lambda>c. \<not> id_eq c i) cs
     = filter (\<lambda>c. dict_get c (lit ''id'') = None \<or> dict_get c (lit ''id'') \<noteq> Some (PInt i)) cs"
  by (rule filter_cong) (auto simp: id_eq_def)

text \<open>
  C10. The delete of an id that the store has writes the records whose id is absent or is not
  the target, in their order: a record without an id stays, every record with the target id is
  removed, while \<open>find_customer\<close>, and the edit with it, reaches the first such record only.
\<close>

theorem delete_keeps_others:
  assumes "load_customers load fs0 DATA_FILE = Inr customers"
    and "find_customer customers customer_id = Some customer"
  shows
    "(let remaining = filter (\<lambda>c. dict_get c (lit ''id'') = None
                                   \<or> dict_get c (lit ''id'') \<noteq> Some (PInt customer_id)) customers
      in files (delete_customer load dump customer_id fs0) = fs0(DATA_FILE \<mapsto> Text (dump remaining))
         \<and> (\<forall>c \<in> set customers. dict_get c (lit ''id'') = None \<longrightarrow> c \<in> set remaining)
         \<and> (\<forall>c \<in> set customers. dict_get c (lit ''id'') = Some (PInt customer_id) \<longrightarrow>
               c \<notin> set remaining)
         \<and> (\<exists>pre post. customers = pre @ customer # post
               \<and> (\<forall>c \<in> set pre. dict_get c (lit ''id'') \<noteq> Some (PInt customer_id))
               \<and> (\<forall>f. update_found customer_id f customers = pre @ f customer # post)))"
proof -
  have w: "files (delete_customer load dump customer_id fs0)
        = fs0(DATA_FILE \<mapsto> Text (dump (filter (\<lambda>c. \<not> id_eq c customer_id) customers)))"
    using assms by (simp add: delete_customer_def Let_def save_customers_def)
  obtain pre post where p: "customers = pre @ customer # post"
    "\<forall>x \<in> set pre. \<not> id_eq x customer_id"
    "\<forall>f. update_found customer_id f customers = pre @ f customer # post"
    using find_customer_split [OF assms(2)] by blast
  have e: "\<exists>pre post. customers = pre @ customer # post
               \<and> (\<forall>c \<in> set pre. dict_get c (lit ''id'') \<noteq> Some (PInt customer_id))
               \<and> (\<forall>f. update_found customer_id f customers = pre @ f customer # post)"
    using p unfolding id_eq_def by blast
  show ?thesis
    unfolding Let_def using w e by (simp add: keep_filter del: lit_simps)
qed

theorem delete_keeps_others_witness:
  "load_customers json_load fs_twins DATA_FILE = Inr [no_id, ann, bob, ann_twin]
   \<and> find_customer [no_id, ann, bob, ann_twin] 1 = Some ann
   \<and> files (delete_customer json_load json_dump 1 fs_twins)
       = fs_twins(DATA_FILE \<mapsto> Text (json_dump [no_id, bob]))
   \<and> update_found 1 (apply_edits clear_phone) [no_id, ann, bob, ann_twin]
       = [no_id, apply_edits clear_phone ann, bob, ann_twin]"
proof -
  have l: "load_customers json_load fs_twins DATA_FILE = Inr [no_id, ann, bob, ann_twin]"
    by code_simp
  have h: "find_customer [no_id, ann, bob, ann_twin] 1 = Some ann" by code_simp
  have r: "filter (\<lambda>c. dict_get c (lit ''id'') = None \<or> dict_get c (lit ''id'') \<noteq> Some (PInt 1))
             [no_id, ann, bob, ann_twin] = [no_id, bob]"
    by code_simp
  have u: "update_found 1 (apply_edits clear_phone) [no_id, ann, bob, ann_twin]
       = [no_id, apply_edits clear_phone ann, bob, ann_twin]"
    by (simp add: id_eq_def no_id_def ann_def)
  have w: "files (delete_customer json_load json_dump 1 fs_twins)
       = fs_twins(DATA_FILE \<mapsto> Text (json_dump [no_id, bob]))"
    using delete_keeps_others [OF l h, of json_dump] unfolding Let_def r by blast
  show ?thesis using l h w u by (intro conjI)
qed

subsection \<open>The ids stay unique\<close>

lemma id_values_append: "id_values (xs @ ys) = id_values xs @ id_values ys"
  by (simp add: id_values_def)

lemma distinct_id_values_filter: "distinct (id_values cs) \<Longrightarrow> distinct (id_values (filter P cs))"
proof (induction cs)
  case Nil
  then show ?case by simp
next
  case (Cons a cs)
  have sub: "set (id_values (filter P cs)) \<subseteq> set (id_values cs)"
    by (auto simp: id_values_def)
  show ?case using Cons sub
    by (auto simp: id_values_def split: option.splits)
qed

lemma set_id_values_filter: "set (id_values (filter P cs)) \<subseteq> set (id_values cs)"
  by (auto simp: id_values_def)

lemma apply_edits_id: "dict_get (apply_edits args c) (lit ''id'') = dict_get c (lit ''id'')"
  by (simp add: apply_edits_def dict_get_assign_if del: lit_simps)

lemma id_values_update_found:
  "(\<And>c. dict_get (f c) (lit ''id'') = dict_get c (lit ''id'')) \<Longrightarrow> id_values (update_found i f cs) = id_values cs"
  by (induction cs) (auto simp: id_values_def)

lemma positive_int_ids: "positive_ids cs \<Longrightarrow> int_ids cs"
  by (induction cs)
     (auto simp: positive_ids_def int_ids_def id_values_def split: option.splits pyval.splits)

lemma positive_id_or_0: "positive_ids cs \<Longrightarrow> c \<in> set cs \<Longrightarrow> 0 \<le> id_or_0 c"
  by (induction cs)
     (auto simp: positive_ids_def id_values_def id_or_0_def split: option.splits pyval.splits)

lemma set_id_values: "set (id_values cs) = {v. \<exists>c \<in> set cs. dict_get c (lit ''id'') = Some v}"
  by (auto simp: id_values_def split: option.splits)

lemma id_values_PInt:
  assumes "positive_ids cs" and "v \<in> set (id_values cs)"
  shows "\<exists>c \<in> set cs. v = PInt (id_or_0 c)"
proof -
  obtain c where c: "c \<in> set cs" "dict_get c (lit ''id'') = Some v"
    using assms(2) unfolding set_id_values by blast
  obtain i where "v = PInt i"
    using assms unfolding positive_ids_def list_all_iff by (cases v) auto
  then have "v = PInt (id_or_0 c)" using c(2) by (simp add: id_or_0_def)
  then show ?thesis using c(1) by blast
qed

lemma next_id_fresh:
  assumes "positive_ids cs"
  shows "\<exists>i. next_id cs = Inr i \<and> 0 < i \<and> PInt i \<notin> set (id_values cs)"
proof (cases "cs = []")
  case True
  then show ?thesis by (simp add: next_id_def id_values_def)
next
  case False
  let ?m = "Max (set (map id_or_0 cs))"
  have ii: "int_ids cs" using assms by (rule positive_int_ids)
  have n: "next_id cs = Inr (1 + ?m)"
    using ii False by (rule next_id_value)
  have le: "id_or_0 c \<le> ?m" if "c \<in> set cs" for c
    using that by (intro Max_ge) auto
  obtain c0 where "c0 \<in> set cs" using False by (cases cs) auto
  then have "0 \<le> ?m" using le [of c0] positive_id_or_0 [OF assms, of c0] by linarith
  moreover have "PInt (1 + ?m) \<notin> set (id_values cs)"
  proof
    assume "PInt (1 + ?m) \<in> set (id_values cs)"
    then obtain c where c: "c \<in> set cs" "PInt (1 + ?m) = PInt (id_or_0 c)"
      using id_values_PInt [OF assms] by blast
    from c(2) have "1 + ?m = id_or_0 c" by (simp only: pyval.inject)
    then show False using le [OF c(1)] by linarith
  qed
  ultimately show ?thesis using n by simp
qed

text \<open>
  C8. From a store whose ids are unique and positive, each command leaves a store whose ids
  are unique (and positive): the add writes the store with one record more, whose id is new;
  the edit changes no id; the delete only removes records.
\<close>

theorem unique_ids_preserved:
  assumes "load_customers load fs0 DATA_FILE = Inr customers"
    and "unique_ids customers"
    and "positive_ids customers"
  shows
    "(\<exists>customer. files (add_customer load dump a fs0)
                       = fs0(DATA_FILE \<mapsto> Text (dump (customers @ [customer])))
           \<and> unique_ids (customers @ [customer]) \<and> positive_ids (customers @ [customer]))
     \<and> (let edited = update_found (edit_id e) (apply_edits e) customers
        in (files (edit_customer load dump e fs0) = fs0
              \<or> files (edit_customer load dump e fs0) = fs0(DATA_FILE \<mapsto> Text (dump edited)))
           \<and> id_values edited = id_values customers
           \<and> unique_ids edited \<and> positive_ids edited)
     \<and> (let remaining = filter (\<lambda>c. \<not> id_eq c customer_id) customers
        in (files (delete_customer load dump customer_id fs0) = fs0
              \<or> files (delete_customer load dump customer_id fs0)
                   = fs0(DATA_FILE \<mapsto> Text (dump remaining)))
           \<and> unique_ids remaining \<and> positive_ids remaining)"
proof -
  obtain i where i: "next_id customers = Inr i" "0 < i" "PInt i \<notin> set (id_values customers)"
    using next_id_fresh [OF assms(3)] by blast
  let ?new = "[(lit ''id'', PInt i), (lit ''name'', PStr (new_name a)),
               (lit ''phone'', PStr (or_empty (new_phone a))),
               (lit ''email'', PStr (or_empty (new_email a))),
               (lit ''notes'', PStr (or_empty (new_notes a)))]"
  have nv: "id_values [?new] = [PInt i]" by (simp add: id_values_def)
  have "files (add_customer load dump a fs0) = fs0(DATA_FILE \<mapsto> Text (dump (customers @ [?new])))"
    using i(1) assms(1) by (simp add: add_customer_def Let_def save_customers_def del: lit_simps)
  moreover have "unique_ids (customers @ [?new])"
    using assms(2) i(3) by (simp add: unique_ids_def id_values_append nv del: lit_simps)
  moreover have "positive_ids (customers @ [?new])"
    using assms(3) i(2) by (simp add: positive_ids_def id_values_append nv del: lit_simps)
  ultimately have add: "\<exists>customer. files (add_customer load dump a fs0)
                         = fs0(DATA_FILE \<mapsto> Text (dump (customers @ [customer])))
             \<and> unique_ids (customers @ [customer]) \<and> positive_ids (customers @ [customer])"
    by blast
  let ?ed = "update_found (edit_id e) (apply_edits e) customers"
  have ev: "id_values ?ed = id_values customers"
    by (rule id_values_update_found) (rule apply_edits_id)
  have ef: "files (edit_customer load dump e fs0) = fs0
            \<or> files (edit_customer load dump e fs0) = fs0(DATA_FILE \<mapsto> Text (dump ?ed))"
    using assms(1) by (simp add: edit_customer_def Let_def save_customers_def split: option.splits)
  have edit: "id_values ?ed = id_values customers \<and> unique_ids ?ed \<and> positive_ids ?ed"
    using assms ev by (simp add: unique_ids_def positive_ids_def)
  let ?rem = "filter (\<lambda>c. \<not> id_eq c customer_id) customers"
  have df: "files (delete_customer load dump customer_id fs0) = fs0
            \<or> files (delete_customer load dump customer_id fs0) = fs0(DATA_FILE \<mapsto> Text (dump ?rem))"
    using assms(1) by (simp add: delete_customer_def Let_def save_customers_def split: option.splits)
  have du: "unique_ids ?rem"
    using assms(2) unfolding unique_ids_def by (rule distinct_id_values_filter)
  have dp: "positive_ids ?rem"
    using assms(3) set_id_values_filter [of "\<lambda>c. \<not> id_eq c customer_id" customers]
    unfolding positive_ids_def list_all_iff by blast
  show ?thesis
    unfolding Let_def using add ef edit df du dp by blast
qed

theorem unique_ids_preserved_witness:
  "load_customers json_load fs_three DATA_FILE = Inr [ann, bob, eve]
   \<and> unique_ids [ann, bob, eve]
   \<and> positive_ids [ann, bob, eve]
   \<and> (\<exists>customer. files (add_customer json_load json_dump add_zed fs_three)
                      = fs_three(DATA_FILE \<mapsto> Text (json_dump ([ann, bob, eve] @ [customer])))
          \<and> unique_ids ([ann, bob, eve] @ [customer]))
   \<and> unique_ids (update_found (edit_id clear_phone) (apply_edits clear_phone) [ann, bob, eve])
   \<and> unique_ids (filter (\<lambda>c. \<not> id_eq c 2) [ann, bob, eve])"
proof -
  have l: "load_customers json_load fs_three DATA_FILE = Inr [ann, bob, eve]" by code_simp
  have u: "unique_ids [ann, bob, eve]" by code_simp
  have p: "positive_ids [ann, bob, eve]" by code_simp
  show ?thesis
    using l u p unique_ids_preserved [OF l u p, of json_dump add_zed clear_phone 2]
    unfolding Let_def by blast
qed

end
